theory Spec2Isabelle
  imports Main "HOL-Library.Word"
begin

unbundle bit_operations_syntax

section \<open>Bytes, buffers and the cipher context\<close>

type_synonym byte = "8 word"
type_synonym bytes = "byte list"

text \<open>
  \<open>memcpy dst off src n\<close> is the C call \<open>memcpy(dst + off, src, n)\<close> on a buffer held as
  a list, \<open>memset dst off v n\<close> is \<open>memset(dst + off, v, n)\<close>. The C calls require
  \<open>off + n\<close> to stay inside \<open>dst\<close> and \<open>n\<close> inside \<open>src\<close>.
\<close>

definition memcpy :: "bytes \<Rightarrow> nat \<Rightarrow> bytes \<Rightarrow> nat \<Rightarrow> bytes" where
  "memcpy dst off src n = take off dst @ take n src @ drop (off + n) dst"

definition memset :: "bytes \<Rightarrow> nat \<Rightarrow> byte \<Rightarrow> nat \<Rightarrow> bytes" where
  "memset dst off v n = take off dst @ replicate n v @ drop (off + n) dst"

text \<open>A loop \<open>for (i = 0; i < bl; i++) a[i] = a[i] ^ b[i]\<close>.\<close>

definition xor_bytes :: "nat \<Rightarrow> bytes \<Rightarrow> bytes \<Rightarrow> bytes" where
  "xor_bytes bl a b = map2 (XOR) (take bl a) (take bl b) @ drop bl a"

definition IV_SEQUENCE_LEN :: nat where
  "IV_SEQUENCE_LEN = 6"

definition OID_AES256 :: string where
  "OID_AES256 = ''2.16.840.1.101.3.4.1.42''"

definition OID_AES192 :: string where
  "OID_AES192 = ''2.16.840.1.101.3.4.1.22''"

definition OID_AES128 :: string where
  "OID_AES128 = ''2.16.840.1.101.3.4.1.2''"

text \<open>
  Modelled from the spec: the OpenSSL 1.0 types \<open>EVP_CIPHER\<close> and \<open>EVP_CIPHER_CTX\<close>, whose
  fields the source reads and writes directly, are declared outside the repository. The
  fields below are the ones the source touches. \<open>do_cipher_fn\<close> is the cipher's
  \<open>do_cipher\<close> function pointer: from the direction flag, the key, the chaining value
  and the input it gives the output and the new chaining value, or \<open>None\<close> when it
  returns 0. The two arrays of the context have \<open>EVP_MAX_BLOCK_LENGTH\<close> bytes.
\<close>

datatype cipher_mode =
  EVP_CIPH_STREAM_CIPHER | EVP_CIPH_ECB_MODE | EVP_CIPH_CBC_MODE
  | EVP_CIPH_CFB_MODE | EVP_CIPH_OFB_MODE

record EVP_CIPHER =
  block_size :: nat
  key_len :: nat
  iv_len :: nat
  mode :: cipher_mode
  do_cipher_fn :: "bool \<Rightarrow> bytes \<Rightarrow> bytes \<Rightarrow> bytes \<Rightarrow> (bytes \<times> bytes) option"

record EVP_CIPHER_CTX =
  cipher :: EVP_CIPHER
  encrypt :: bool
  key :: bytes
  oiv :: bytes
  iv :: bytes
  buf :: bytes
  buf_len :: nat
  final :: bytes
  final_used :: bool
  no_padding :: bool
  block_mask :: nat

definition EVP_MAX_BLOCK_LENGTH :: nat where
  "EVP_MAX_BLOCK_LENGTH = 32"

definition EVP_MAX_IV_LENGTH :: nat where
  "EVP_MAX_IV_LENGTH = 16"

text \<open>
  The call \<open>ctx->cipher->do_cipher(ctx, out, in, inl)\<close>: it reads \<open>inl\<close> bytes of \<open>in\<close>,
  writes as many to \<open>out\<close> and updates the chaining value of the context.
\<close>

definition do_cipher :: "EVP_CIPHER_CTX \<Rightarrow> bytes \<Rightarrow> nat \<Rightarrow> (EVP_CIPHER_CTX \<times> bytes) option" where
  "do_cipher ctx inp inl =
     (case do_cipher_fn (cipher ctx) (encrypt ctx) (key ctx) (iv ctx) (take inl inp) of
        None \<Rightarrow> None
      | Some (out, iv') \<Rightarrow> Some (ctx\<lparr>iv := iv'\<rparr>, out))"

text \<open>
  What a step returns: the C return value (1, or 0 together with the message the source
  traces before it returns), the context as the step left it, the bytes it wrote from the
  start of \<open>out\<close>, and \<open>*outl\<close>.
\<close>

datatype evp_error =
  CTS_expecting_previous_ciphertext
  | CTS_expecting_previous_plaintext
  | CTS_unsupported_mode
  | Cipher_failed
  | Data_not_multiple_of_block_length
  | Wrong_final_block_length
  | Bad_decrypt

datatype evp_ret = Ret1 | Ret0 evp_error

record evp_result =
  ret :: evp_ret
  res_ctx :: EVP_CIPHER_CTX
  written :: bytes
  outl :: nat

definition result :: "evp_ret \<Rightarrow> EVP_CIPHER_CTX \<Rightarrow> bytes \<Rightarrow> nat \<Rightarrow> evp_result" where
  "result r ctx w n = \<lparr>ret = r, res_ctx = ctx, written = w, outl = n\<rparr>"

section \<open>Ciphertext stealing\<close>

text \<open>
  \<open>EVP_EncryptUpdate_cts\<close>, lines 62 to 130. The lengths are C \<open>int\<close>s; they are natural
  numbers here, which agrees with C as long as \<open>buf_len \<le> block_size\<close> and \<open>block_mask\<close>
  is \<open>block_size - 1\<close> for a block size that is a power of two (what \<open>EVP_CipherInit_ex\<close>
  establishes).
\<close>

definition EVP_EncryptUpdate_cts :: "EVP_CIPHER_CTX \<Rightarrow> bytes \<Rightarrow> nat \<Rightarrow> evp_result" where
  "EVP_EncryptUpdate_cts ctx inp inl =
     (let bl = block_size (cipher ctx) in
      if buf_len ctx + inl \<le> bl then
        result Ret1
          (ctx\<lparr>buf := memcpy (buf ctx) (buf_len ctx) inp inl, buf_len := buf_len ctx + inl\<rparr>) [] 0
      else
        case (if final_used ctx then
                (case do_cipher ctx (final ctx) bl of
                   None \<Rightarrow> None
                 | Some (c, out) \<Rightarrow> Some (c\<lparr>final_used := False\<rparr>, out, bl))
              else Some (ctx, [], 0)) of
          None \<Rightarrow> result (Ret0 Cipher_failed) ctx [] 0
        | Some (ctx1, out1, outl1) \<Rightarrow>
            let k = bl - buf_len ctx1;
                ctx2 = ctx1\<lparr>buf := memcpy (buf ctx1) (buf_len ctx1) inp k, buf_len := bl\<rparr>;
                inp2 = drop k inp;
                inl2 = inl - k
            in
            if inl2 \<le> bl then
              result Ret1
                (ctx2\<lparr>final := memcpy (final ctx2) 0 (buf ctx2) bl, final_used := True,
                      buf := memcpy (buf ctx2) 0 inp2 inl2, buf_len := inl2\<rparr>)
                out1 outl1
            else
              case do_cipher ctx2 (buf ctx2) bl of
                None \<Rightarrow> result (Ret0 Cipher_failed) ctx2 out1 outl1
              | Some (ctx3, out3) \<Rightarrow>
                  let leftover = inl2 AND block_mask ctx3;
                      inl4 = (if leftover \<noteq> 0 then inl2 - (bl + leftover) else inl2 - 2 * bl);
                      ctx4 = (if leftover \<noteq> 0
                              then ctx3\<lparr>buf := memcpy (buf ctx3) 0 (drop (inl4 + bl) inp2) leftover,
                                        buf_len := leftover\<rparr>
                              else ctx3\<lparr>buf := memcpy (buf ctx3) 0 (drop (inl4 + bl) inp2) bl,
                                        buf_len := bl\<rparr>);
                      ctx5 = ctx4\<lparr>final := memcpy (final ctx4) 0 (drop inl4 inp2) bl,
                                  final_used := True\<rparr>
                  in
                  case do_cipher ctx5 inp2 inl4 of
                    None \<Rightarrow> result (Ret0 Cipher_failed) ctx5 (out1 @ out3) (outl1 + bl)
                  | Some (ctx6, out6) \<Rightarrow>
                      result Ret1 ctx6 (out1 @ out3 @ out6) (outl1 + bl + inl4))"

text \<open>\<open>EVP_EncryptFinal_cts\<close>, lines 132 to 195. \<open>tmp\<close> is the block \<open>do_cipher\<close> wrote.\<close>

definition EVP_EncryptFinal_cts :: "EVP_CIPHER_CTX \<Rightarrow> evp_result" where
  "EVP_EncryptFinal_cts ctx =
     (let bl = block_size (cipher ctx) in
      if \<not> final_used ctx then result (Ret0 CTS_expecting_previous_ciphertext) ctx [] 0
      else if buf_len ctx = 0 then result (Ret0 CTS_expecting_previous_plaintext) ctx [] 0
      else
        let leftover = buf_len ctx in
        case mode (cipher ctx) of
          EVP_CIPH_ECB_MODE \<Rightarrow>
            (case do_cipher ctx (final ctx) bl of
               None \<Rightarrow> result (Ret0 Cipher_failed) ctx [] 0
             | Some (ctx1, tmp) \<Rightarrow>
                 let ctx2 = ctx1\<lparr>buf := memcpy (buf ctx1) leftover (drop leftover tmp) (bl - leftover)\<rparr>
                 in
                 case do_cipher ctx2 (buf ctx2) bl of
                   None \<Rightarrow> result (Ret0 Cipher_failed) ctx2 [] 0
                 | Some (ctx3, out) \<Rightarrow> result Ret1 ctx3 (out @ take leftover tmp) (bl + leftover))
        | EVP_CIPH_CBC_MODE \<Rightarrow>
            (case do_cipher ctx (final ctx) bl of
               None \<Rightarrow> result (Ret0 Cipher_failed) ctx [] 0
             | Some (ctx1, tmp) \<Rightarrow>
                 let ctx2 = ctx1\<lparr>buf := memset (buf ctx1) leftover 0 (bl - leftover)\<rparr>
                 in
                 case do_cipher ctx2 (buf ctx2) bl of
                   None \<Rightarrow> result (Ret0 Cipher_failed) ctx2 [] 0
                 | Some (ctx3, out) \<Rightarrow> result Ret1 ctx3 (out @ take leftover tmp) (bl + leftover))
        | _ \<Rightarrow> result (Ret0 CTS_unsupported_mode) ctx [] 0)"

text \<open>\<open>EVP_DecryptUpdate_cts\<close>, lines 197 to 201.\<close>

definition EVP_DecryptUpdate_cts :: "EVP_CIPHER_CTX \<Rightarrow> bytes \<Rightarrow> nat \<Rightarrow> evp_result" where
  "EVP_DecryptUpdate_cts ctx inp inl = EVP_EncryptUpdate_cts ctx inp inl"

text \<open>\<open>EVP_DecryptFinal_cts\<close>, lines 203 to 287.\<close>

definition EVP_DecryptFinal_cts :: "EVP_CIPHER_CTX \<Rightarrow> evp_result" where
  "EVP_DecryptFinal_cts ctx =
     (let bl = block_size (cipher ctx) in
      if \<not> final_used ctx then result (Ret0 CTS_expecting_previous_ciphertext) ctx [] 0
      else if buf_len ctx = 0 then result (Ret0 CTS_expecting_previous_ciphertext) ctx [] 0
      else
        let leftover = buf_len ctx in
        case mode (cipher ctx) of
          EVP_CIPH_ECB_MODE \<Rightarrow>
            (case do_cipher ctx (final ctx) bl of
               None \<Rightarrow> result (Ret0 Cipher_failed) ctx [] 0
             | Some (ctx1, tmp) \<Rightarrow>
                 let ctx2 = ctx1\<lparr>buf := memcpy (buf ctx1) leftover (drop leftover tmp) (bl - leftover)\<rparr>
                 in
                 case do_cipher ctx2 (buf ctx2) bl of
                   None \<Rightarrow> result (Ret0 Cipher_failed) ctx2 [] 0
                 | Some (ctx3, out) \<Rightarrow> result Ret1 ctx3 (out @ take leftover tmp) (bl + leftover))
        | EVP_CIPH_CBC_MODE \<Rightarrow>
            (let C_n_minus_2 = take bl (iv ctx);
                 ctx1 = ctx\<lparr>buf := memset (buf ctx) leftover 0 (bl - leftover)\<rparr>
             in
             case do_cipher ctx1 (final ctx1) bl of
               None \<Rightarrow> result (Ret0 Cipher_failed) ctx1 [] 0
             | Some (ctx2, tmp0) \<Rightarrow>
                 let tmp1 = xor_bytes bl tmp0 C_n_minus_2;
                     tmp = xor_bytes bl tmp1 (buf ctx2);
                     ctx3 = ctx2\<lparr>buf := memcpy (buf ctx2) leftover (drop leftover tmp) (bl - leftover)\<rparr>
                 in
                 case do_cipher ctx3 (buf ctx3) bl of
                   None \<Rightarrow> result (Ret0 Cipher_failed) ctx3 [] 0
                 | Some (ctx4, out0) \<Rightarrow>
                     let out1 = xor_bytes bl out0 (final ctx4);
                         out = xor_bytes bl out1 C_n_minus_2
                     in result Ret1 ctx4 (out @ take leftover tmp) (bl + leftover))
        | _ \<Rightarrow> result (Ret0 CTS_unsupported_mode) ctx [] 0)"

section \<open>Relaxed final block\<close>

text \<open>
  \<open>EVP_DecryptFinal_relaxed\<close>, lines 289 to 339. \<open>n\<close> is the last byte of the final block
  read as an unsigned char.
\<close>

definition EVP_DecryptFinal_relaxed :: "EVP_CIPHER_CTX \<Rightarrow> evp_result" where
  "EVP_DecryptFinal_relaxed ctx =
     (let b = block_size (cipher ctx) in
      if no_padding ctx then
        (if buf_len ctx \<noteq> 0 then result (Ret0 Data_not_multiple_of_block_length) ctx [] 0
         else result Ret1 ctx [] 0)
      else if b > 1 then
        (if buf_len ctx \<noteq> 0 \<or> \<not> final_used ctx
         then result (Ret0 Wrong_final_block_length) ctx [] 0
         else
           let n = unat (final ctx ! (b - 1)) in
           if n = 0 \<or> n > b then result (Ret0 Bad_decrypt) ctx [] 0
           else result Ret1 ctx (take (b - n) (final ctx)) (b - n))
      else result Ret1 ctx [] 0)"

section \<open>Initialisation vector\<close>

text \<open>\<open>H235CryptoEngine::SetIV\<close>, lines 381 to 395; the loop of lines 385 to 387 first. \<open>ivbuf\<close> is
  the array the pointer \<open>iv\<close> points to.\<close>

function SetIV_loop :: "bytes \<Rightarrow> bytes \<Rightarrow> nat \<Rightarrow> nat \<Rightarrow> bytes" where
  "SetIV_loop ivbuf ivSequence i ivLen =
     (if i < ivLen div IV_SEQUENCE_LEN
      then SetIV_loop (memcpy ivbuf (i * IV_SEQUENCE_LEN) ivSequence IV_SEQUENCE_LEN)
             ivSequence (i + 1) ivLen
      else ivbuf)"
  by pat_completeness auto
termination
  by (relation "measure (\<lambda>(ivbuf, s, i, ivLen). ivLen div IV_SEQUENCE_LEN - i)") auto

definition SetIV :: "bytes \<Rightarrow> bytes option \<Rightarrow> nat \<Rightarrow> bytes" where
  "SetIV ivbuf ivSequence ivLen =
     (case ivSequence of
        Some s \<Rightarrow>
          (let iv1 = SetIV_loop ivbuf s 0 ivLen in
           if ivLen mod IV_SEQUENCE_LEN > 0
           then memcpy iv1 (ivLen - ivLen mod IV_SEQUENCE_LEN) s (ivLen mod IV_SEQUENCE_LEN)
           else iv1)
      | None \<Rightarrow> memset ivbuf 0 0 ivLen)"

section \<open>The OpenSSL functions the engine calls\<close>

text \<open>
  Modelled from the spec: the AES block transform, the build option \<open>H323_H235_AES256\<close>
  and the OpenSSL 1.0 functions of this section are not in the repository (the spec
  names them as external collaborators). The block transform and the build option are
  parameters; the functions follow OpenSSL 1.0's \<open>evp_enc.c\<close> and \<open>cbc128.c\<close>.
  \<open>AES_encrypt p k b\<close> is the transform of the block \<open>b\<close> under the key \<open>k\<close>.
\<close>

record platform =
  H323_H235_AES256 :: bool
  AES_encrypt :: "bytes \<Rightarrow> bytes \<Rightarrow> bytes"
  AES_decrypt :: "bytes \<Rightarrow> bytes \<Rightarrow> bytes"

text \<open>
  Cipher block chaining over \<open>n\<close> whole blocks of 16 bytes: the output and the chaining
  value left in \<open>ivec\<close> (the last ciphertext block).
\<close>

fun CRYPTO_cbc128_encrypt :: "(bytes \<Rightarrow> bytes) \<Rightarrow> nat \<Rightarrow> bytes \<Rightarrow> bytes \<Rightarrow> bytes \<times> bytes" where
  "CRYPTO_cbc128_encrypt block 0 ivec inp = ([], ivec)"
| "CRYPTO_cbc128_encrypt block (Suc n) ivec inp =
     (let c = block (xor_bytes 16 (take 16 inp) ivec);
          r = CRYPTO_cbc128_encrypt block n c (drop 16 inp)
      in (c @ fst r, snd r))"

fun CRYPTO_cbc128_decrypt :: "(bytes \<Rightarrow> bytes) \<Rightarrow> nat \<Rightarrow> bytes \<Rightarrow> bytes \<Rightarrow> bytes \<times> bytes" where
  "CRYPTO_cbc128_decrypt block 0 ivec inp = ([], ivec)"
| "CRYPTO_cbc128_decrypt block (Suc n) ivec inp =
     (let c = take 16 inp;
          p = xor_bytes 16 (block c) ivec;
          r = CRYPTO_cbc128_decrypt block n c (drop 16 inp)
      in (p @ fst r, snd r))"

definition aes_cbc_cipher :: "platform \<Rightarrow> bool \<Rightarrow> bytes \<Rightarrow> bytes \<Rightarrow> bytes \<Rightarrow> (bytes \<times> bytes) option" where
  "aes_cbc_cipher pf enc k ivec inp =
     Some (if enc then CRYPTO_cbc128_encrypt (AES_encrypt pf k) (length inp div 16) ivec inp
           else CRYPTO_cbc128_decrypt (AES_decrypt pf k) (length inp div 16) ivec inp)"

definition EVP_aes_cbc :: "platform \<Rightarrow> nat \<Rightarrow> EVP_CIPHER" where
  "EVP_aes_cbc pf klen =
     \<lparr>block_size = 16, key_len = klen, iv_len = 16, mode = EVP_CIPH_CBC_MODE,
      do_cipher_fn = aes_cbc_cipher pf\<rparr>"

definition EVP_aes_128_cbc :: "platform \<Rightarrow> EVP_CIPHER" where
  "EVP_aes_128_cbc pf = EVP_aes_cbc pf 16"

definition EVP_aes_192_cbc :: "platform \<Rightarrow> EVP_CIPHER" where
  "EVP_aes_192_cbc pf = EVP_aes_cbc pf 24"

definition EVP_aes_256_cbc :: "platform \<Rightarrow> EVP_CIPHER" where
  "EVP_aes_256_cbc pf = EVP_aes_cbc pf 32"

text \<open>
  \<open>EVP_CIPHER_CTX_init\<close> clears the context. The cipher pointer it leaves null is set by
  the \<open>EVP_CipherInit_ex\<close> call that follows it in the source, so the field is kept here.
\<close>

definition EVP_CIPHER_CTX_init :: "EVP_CIPHER_CTX \<Rightarrow> EVP_CIPHER_CTX" where
  "EVP_CIPHER_CTX_init ctx =
     ctx\<lparr>encrypt := False, key := [], oiv := replicate EVP_MAX_IV_LENGTH 0,
         iv := replicate EVP_MAX_IV_LENGTH 0, buf := replicate EVP_MAX_BLOCK_LENGTH 0,
         buf_len := 0, final := replicate EVP_MAX_BLOCK_LENGTH 0, final_used := False,
         no_padding := False, block_mask := 0\<rparr>"

text \<open>
  \<open>EVP_CipherInit_ex(ctx, cipher, NULL, key, iv, enc)\<close>, each of \<open>cipher\<close>, \<open>key\<close> and \<open>iv\<close>
  possibly null; \<open>EVP_EncryptInit_ex\<close> and \<open>EVP_DecryptInit_ex\<close> are its two directions.
  The source ignores its return value.
\<close>

definition EVP_CipherInit_ex ::
  "EVP_CIPHER_CTX \<Rightarrow> EVP_CIPHER option \<Rightarrow> bytes option \<Rightarrow> bytes option \<Rightarrow> bool \<Rightarrow> EVP_CIPHER_CTX" where
  "EVP_CipherInit_ex ctx c k ivopt enc =
     (let ctx1 = ctx\<lparr>encrypt := enc\<rparr>;
          ctx2 = (case c of Some ci \<Rightarrow> ctx1\<lparr>cipher := ci, no_padding := False\<rparr> | None \<Rightarrow> ctx1);
          n = iv_len (cipher ctx2);
          ctx3 = (case mode (cipher ctx2) of
                    EVP_CIPH_STREAM_CIPHER \<Rightarrow> ctx2
                  | EVP_CIPH_ECB_MODE \<Rightarrow> ctx2
                  | _ \<Rightarrow>
                      (let ov = (case ivopt of Some v \<Rightarrow> memcpy (oiv ctx2) 0 v n
                                 | None \<Rightarrow> oiv ctx2)
                       in ctx2\<lparr>oiv := ov, iv := memcpy (iv ctx2) 0 ov n\<rparr>));
          ctx4 = (case k of Some kk \<Rightarrow> ctx3\<lparr>key := take (key_len (cipher ctx3)) kk\<rparr> | None \<Rightarrow> ctx3)
      in ctx4\<lparr>buf_len := 0, final_used := False, block_mask := block_size (cipher ctx4) - 1\<rparr>)"

definition EVP_EncryptInit_ex ::
  "EVP_CIPHER_CTX \<Rightarrow> EVP_CIPHER option \<Rightarrow> bytes option \<Rightarrow> bytes option \<Rightarrow> EVP_CIPHER_CTX" where
  "EVP_EncryptInit_ex ctx c k ivopt = EVP_CipherInit_ex ctx c k ivopt True"

definition EVP_DecryptInit_ex ::
  "EVP_CIPHER_CTX \<Rightarrow> EVP_CIPHER option \<Rightarrow> bytes option \<Rightarrow> bytes option \<Rightarrow> EVP_CIPHER_CTX" where
  "EVP_DecryptInit_ex ctx c k ivopt = EVP_CipherInit_ex ctx c k ivopt False"

definition EVP_CIPHER_CTX_set_padding :: "EVP_CIPHER_CTX \<Rightarrow> bool \<Rightarrow> EVP_CIPHER_CTX" where
  "EVP_CIPHER_CTX_set_padding ctx pad = ctx\<lparr>no_padding := \<not> pad\<rparr>"

definition EVP_CIPHER_CTX_block_size :: "EVP_CIPHER_CTX \<Rightarrow> nat" where
  "EVP_CIPHER_CTX_block_size ctx = block_size (cipher ctx)"

definition EVP_CIPHER_CTX_iv_length :: "EVP_CIPHER_CTX \<Rightarrow> nat" where
  "EVP_CIPHER_CTX_iv_length ctx = iv_len (cipher ctx)"

text \<open>
  \<open>EVP_EncryptUpdate\<close>. \<open>outl0\<close> is the value \<open>*outl\<close> holds on entry: a failing
  \<open>do_cipher\<close> on the buffered path returns 0 without writing \<open>*outl\<close>.
\<close>

definition EVP_EncryptUpdate :: "EVP_CIPHER_CTX \<Rightarrow> nat \<Rightarrow> bytes \<Rightarrow> nat \<Rightarrow> evp_result" where
  "EVP_EncryptUpdate ctx outl0 inp inl =
     (if inl = 0 then result Ret1 ctx [] 0
      else if buf_len ctx = 0 \<and> inl AND block_mask ctx = 0 then
        (case do_cipher ctx inp inl of
           Some (c, out) \<Rightarrow> result Ret1 c out inl
         | None \<Rightarrow> result (Ret0 Cipher_failed) ctx [] 0)
      else
        let i = buf_len ctx; bl = block_size (cipher ctx) in
        if i \<noteq> 0 \<and> i + inl < bl then
          result Ret1 (ctx\<lparr>buf := memcpy (buf ctx) i inp inl, buf_len := buf_len ctx + inl\<rparr>) [] 0
        else
          case (if i \<noteq> 0 then
                  (let j = bl - i; ctx1 = ctx\<lparr>buf := memcpy (buf ctx) i inp j\<rparr> in
                   case do_cipher ctx1 (buf ctx1) bl of
                     None \<Rightarrow> Inl ctx1
                   | Some (c, out) \<Rightarrow> Inr (c, out, bl, drop j inp, inl - j))
                else Inr (ctx, [], 0, inp, inl)) of
            Inl c \<Rightarrow> result (Ret0 Cipher_failed) c [] outl0
          | Inr (ctx2, out1, outl1, inp2, inl2) \<Rightarrow>
              let i2 = inl2 AND (bl - 1); inl3 = inl2 - i2 in
              case (if inl3 > 0 then
                      (case do_cipher ctx2 inp2 inl3 of
                         None \<Rightarrow> None
                       | Some (c, out) \<Rightarrow> Some (c, out1 @ out, outl1 + inl3))
                    else Some (ctx2, out1, outl1)) of
                None \<Rightarrow> result (Ret0 Cipher_failed) ctx2 out1 outl1
              | Some (ctx3, out3, outl3) \<Rightarrow>
                  result Ret1
                    (ctx3\<lparr>buf := (if i2 \<noteq> 0 then memcpy (buf ctx3) 0 (drop inl3 inp2) i2
                                  else buf ctx3),
                          buf_len := i2\<rparr>)
                    out3 outl3)"

text \<open>\<open>EVP_EncryptFinal_ex\<close>: the padding block, \<open>n\<close> bytes of value \<open>n\<close>.\<close>

definition EVP_EncryptFinal_ex :: "EVP_CIPHER_CTX \<Rightarrow> nat \<Rightarrow> evp_result" where
  "EVP_EncryptFinal_ex ctx outl0 =
     (let b = block_size (cipher ctx) in
      if b = 1 then result Ret1 ctx [] 0
      else
        let bl = buf_len ctx in
        if no_padding ctx then
          (if bl \<noteq> 0 then result (Ret0 Data_not_multiple_of_block_length) ctx [] outl0
           else result Ret1 ctx [] 0)
        else
          let n = b - bl;
              ctx1 = ctx\<lparr>buf := memset (buf ctx) bl (of_nat n) n\<rparr>
          in
          case do_cipher ctx1 (buf ctx1) b of
            None \<Rightarrow> result (Ret0 Cipher_failed) ctx1 [] outl0
          | Some (c, out) \<Rightarrow> result Ret1 c out b)"

text \<open>
  \<open>EVP_DecryptUpdate\<close>: with padding enabled it holds the last whole block back in
  \<open>final\<close> and gives out the block held back by the call before.
\<close>

definition EVP_DecryptUpdate :: "EVP_CIPHER_CTX \<Rightarrow> nat \<Rightarrow> bytes \<Rightarrow> nat \<Rightarrow> evp_result" where
  "EVP_DecryptUpdate ctx outl0 inp inl =
     (if inl = 0 then result Ret1 ctx [] 0
      else if no_padding ctx then EVP_EncryptUpdate ctx outl0 inp inl
      else
        let b = block_size (cipher ctx);
            fix_len = final_used ctx;
            pre = (if fix_len then take b (final ctx) else []);
            r = EVP_EncryptUpdate ctx outl0 inp inl
        in
        if ret r \<noteq> Ret1 then result (ret r) (res_ctx r) (pre @ written r) (outl r)
        else
          let c = res_ctx r;
              held = (b > 1 \<and> buf_len c = 0);
              n = (if held then outl r - b else outl r);
              c' = (if held
                    then c\<lparr>final_used := True, final := memcpy (final c) 0 (drop n (written r)) b\<rparr>
                    else c\<lparr>final_used := False\<rparr>)
          in result Ret1 c' (pre @ written r) (if fix_len then n + b else n))"

section \<open>The crypto engine\<close>

text \<open>
  Modelled from the spec: \<open>PBYTEArray\<close> belongs to the PTLib library. \<open>PBYTEArray_new n\<close>
  is the array of \<open>n\<close> zero bytes its constructor makes, \<open>SetSize\<close> cuts an array or
  extends it with zero bytes, and \<open>write_at\<close> is a step writing its output through
  \<open>GetPointer() + off\<close>.
\<close>

definition PBYTEArray_new :: "nat \<Rightarrow> bytes" where
  "PBYTEArray_new n = replicate n 0"

definition SetSize :: "bytes \<Rightarrow> nat \<Rightarrow> bytes" where
  "SetSize a n = take n a @ replicate (n - length a) 0"

definition write_at :: "bytes \<Rightarrow> nat \<Rightarrow> bytes \<Rightarrow> bytes" where
  "write_at a off w = memcpy a off w (length w)"

text \<open>
  The class \<open>H235CryptoEngine\<close>. Its constructor (lines 341 to 344) stores the algorithm
  and leaves the two cipher contexts as the memory holds them; \<open>e0\<close> and \<open>d0\<close> are those
  contents.
\<close>

record H235CryptoEngine =
  m_algorithmOID :: string
  m_encryptCtx :: EVP_CIPHER_CTX
  m_decryptCtx :: EVP_CIPHER_CTX

definition H235CryptoEngine_new :: "string \<Rightarrow> EVP_CIPHER_CTX \<Rightarrow> EVP_CIPHER_CTX \<Rightarrow> H235CryptoEngine" where
  "H235CryptoEngine_new algorithmOID e0 d0 =
     \<lparr>m_algorithmOID = algorithmOID, m_encryptCtx = e0, m_decryptCtx = d0\<rparr>"

text \<open>
  \<open>H235CryptoEngine::SetKey\<close>, lines 358 to 379. It returns nothing: on an unsupported
  algorithm it traces a message and leaves the engine as it was.
\<close>

definition SetKey :: "platform \<Rightarrow> H235CryptoEngine \<Rightarrow> bytes \<Rightarrow> H235CryptoEngine" where
  "SetKey pf eng k =
     (case (if m_algorithmOID eng = OID_AES128 then Some (EVP_aes_128_cbc pf)
            else if m_algorithmOID eng = OID_AES192 then Some (EVP_aes_192_cbc pf)
            else if H323_H235_AES256 pf \<and> m_algorithmOID eng = OID_AES256
              then Some (EVP_aes_256_cbc pf)
            else None) of
        None \<Rightarrow> eng
      | Some c \<Rightarrow>
          eng\<lparr>m_encryptCtx :=
                EVP_EncryptInit_ex (EVP_CIPHER_CTX_init (m_encryptCtx eng)) (Some c) (Some k) None,
              m_decryptCtx :=
                EVP_DecryptInit_ex (EVP_CIPHER_CTX_init (m_decryptCtx eng)) (Some c) (Some k) None\<rparr>)"

text \<open>The constructor with a key, lines 346 to 350.\<close>

definition H235CryptoEngine_new_key ::
  "platform \<Rightarrow> string \<Rightarrow> bytes \<Rightarrow> EVP_CIPHER_CTX \<Rightarrow> EVP_CIPHER_CTX \<Rightarrow> H235CryptoEngine" where
  "H235CryptoEngine_new_key pf algorithmOID k e0 d0 =
     SetKey pf (H235CryptoEngine_new algorithmOID e0 d0) k"

text \<open>
  \<open>H235CryptoEngine::Encrypt\<close>, lines 397 to 436. \<open>Encrypt_steps\<close> is lines 403 to 432: the
  flag and the results of the two cipher steps, whose return values the source only
  traces. \<open>Encrypt\<close> gives the engine, the array returned and the flag.
\<close>

definition Encrypt_steps ::
  "H235CryptoEngine \<Rightarrow> bytes \<Rightarrow> bytes option \<Rightarrow> bool \<times> evp_result \<times> evp_result" where
  "Encrypt_steps eng data ivSequence =
     (let ctx0 = m_encryptCtx eng;
          ciphertext_len = length data + EVP_CIPHER_CTX_block_size ctx0;
          final_len = 0;
          ivbuf = SetIV (replicate EVP_MAX_IV_LENGTH 0) ivSequence (EVP_CIPHER_CTX_iv_length ctx0);
          ctx1 = EVP_EncryptInit_ex ctx0 None None (Some ivbuf);
          rtpPadding = (length data < EVP_CIPHER_CTX_block_size ctx1);
          ctx2 = EVP_CIPHER_CTX_set_padding ctx1 rtpPadding
      in
      if \<not> rtpPadding \<and> length data mod EVP_CIPHER_CTX_block_size ctx2 > 0 then
        (let r1 = EVP_EncryptUpdate_cts ctx2 data (length data);
             r2 = EVP_EncryptFinal_cts (res_ctx r1)
         in (rtpPadding, r1, r2))
      else
        (let r1 = EVP_EncryptUpdate ctx2 ciphertext_len data (length data);
             r2 = EVP_EncryptFinal_ex (res_ctx r1) final_len
         in (rtpPadding, r1, r2)))"

definition Encrypt ::
  "H235CryptoEngine \<Rightarrow> bytes \<Rightarrow> bytes option \<Rightarrow> H235CryptoEngine \<times> bytes \<times> bool" where
  "Encrypt eng data ivSequence =
     (case Encrypt_steps eng data ivSequence of
        (rtpPadding, r1, r2) \<Rightarrow>
          let ciphertext0 =
                PBYTEArray_new (length data + EVP_CIPHER_CTX_block_size (m_encryptCtx eng));
              ciphertext = write_at (write_at ciphertext0 0 (written r1)) (outl r1) (written r2)
          in (eng\<lparr>m_encryptCtx := res_ctx r2\<rparr>, SetSize ciphertext (outl r1 + outl r2),
              rtpPadding))"

text \<open>\<open>H235CryptoEngine::Decrypt\<close>, lines 438 to 472, in the same two parts.\<close>

definition Decrypt_steps ::
  "H235CryptoEngine \<Rightarrow> bytes \<Rightarrow> bytes option \<Rightarrow> bool \<Rightarrow> evp_result \<times> evp_result" where
  "Decrypt_steps eng data ivSequence rtpPadding =
     (let ctx0 = m_decryptCtx eng;
          plaintext_len = length data;
          ivbuf = SetIV (replicate EVP_MAX_IV_LENGTH 0) ivSequence (EVP_CIPHER_CTX_iv_length ctx0);
          ctx1 = EVP_DecryptInit_ex ctx0 None None (Some ivbuf);
          ctx2 = EVP_CIPHER_CTX_set_padding ctx1 rtpPadding
      in
      if \<not> rtpPadding \<and> length data mod EVP_CIPHER_CTX_block_size ctx2 > 0 then
        (let r1 = EVP_DecryptUpdate_cts ctx2 data (length data);
             r2 = EVP_DecryptFinal_cts (res_ctx r1)
         in (r1, r2))
      else
        (let r1 = EVP_DecryptUpdate ctx2 plaintext_len data (length data);
             r2 = EVP_DecryptFinal_relaxed (res_ctx r1)
         in (r1, r2)))"

definition Decrypt ::
  "H235CryptoEngine \<Rightarrow> bytes \<Rightarrow> bytes option \<Rightarrow> bool \<Rightarrow> H235CryptoEngine \<times> bytes" where
  "Decrypt eng data ivSequence rtpPadding =
     (case Decrypt_steps eng data ivSequence rtpPadding of
        (r1, r2) \<Rightarrow>
          let plaintext0 = PBYTEArray_new (length data);
              plaintext = write_at (write_at plaintext0 0 (written r1)) (outl r1) (written r2)
          in (eng\<lparr>m_decryptCtx := res_ctx r2\<rparr>, SetSize plaintext (outl r1 + outl r2)))"

text \<open>
  \<open>H235CryptoEngine::GenerateRandomKey\<close>, lines 474 to 500. \<open>rnd\<close> is the stream of bytes
  \<open>RAND_bytes\<close> delivers.
\<close>

definition GenerateRandomKey_for ::
  "platform \<Rightarrow> (nat \<Rightarrow> byte) \<Rightarrow> H235CryptoEngine \<Rightarrow> string \<Rightarrow> bytes" where
  "GenerateRandomKey_for pf rnd eng algorithmOID =
     (case (if algorithmOID = OID_AES128 then Some 16
            else if m_algorithmOID eng = OID_AES192 then Some 24
            else if H323_H235_AES256 pf \<and> m_algorithmOID eng = OID_AES256 then Some 32
            else None) of
        None \<Rightarrow> []
      | Some n \<Rightarrow> map rnd [0..<n])"

definition GenerateRandomKey ::
  "platform \<Rightarrow> (nat \<Rightarrow> byte) \<Rightarrow> H235CryptoEngine \<Rightarrow> H235CryptoEngine \<times> bytes" where
  "GenerateRandomKey pf rnd eng =
     (let r = GenerateRandomKey_for pf rnd eng (m_algorithmOID eng)
      in (SetKey pf eng r, r))"

section \<open>The session\<close>

text \<open>
  Modelled from the spec: the Diffie-Hellman object and the RTP frame are external. The
  field \<open>m_dh\<close> holds the shared secret \<open>ComputeSessionKey\<close> computes; a frame is its
  payload and its padding flag.
\<close>

record H235Session =
  m_dh :: bytes
  m_context :: H235CryptoEngine
  m_dhcontext :: H235CryptoEngine
  m_isInitialised :: bool
  m_isMaster :: bool
  m_dhSessionkey :: bytes
  m_crytoMasterKey :: bytes

record RTP_DataFrame =
  payload :: bytes
  padding :: bool

text \<open>The constructor, lines 504 to 509; the four contexts start as the memory holds them.\<close>

definition H235Session_new ::
  "bytes \<Rightarrow> string \<Rightarrow> EVP_CIPHER_CTX \<Rightarrow> EVP_CIPHER_CTX \<Rightarrow> EVP_CIPHER_CTX \<Rightarrow> EVP_CIPHER_CTX \<Rightarrow> H235Session" where
  "H235Session_new dh oidAlgorithm e0 d0 e1 d1 =
     \<lparr>m_dh = dh, m_context = H235CryptoEngine_new oidAlgorithm e0 d0,
      m_dhcontext = H235CryptoEngine_new oidAlgorithm e1 d1,
      m_isInitialised = False, m_isMaster = False, m_dhSessionkey = [], m_crytoMasterKey = []\<rparr>"

text \<open>Lines 516 to 535.\<close>

definition EncodeMediaKey :: "H235Session \<Rightarrow> H235Session \<times> bytes" where
  "EncodeMediaKey s =
     (case Encrypt (m_dhcontext s) (m_crytoMasterKey s) None of
        (e, k, rtpPadding) \<Rightarrow> (s\<lparr>m_dhcontext := e\<rparr>, k))"

definition DecodeMediaKey :: "platform \<Rightarrow> H235Session \<Rightarrow> bytes \<Rightarrow> H235Session" where
  "DecodeMediaKey pf s k =
     (case Decrypt (m_dhcontext s) k None False of
        (e, p) \<Rightarrow>
          s\<lparr>m_dhcontext := e, m_crytoMasterKey := p, m_context := SetKey pf (m_context s) p\<rparr>)"

text \<open>Lines 537 to 559.\<close>

definition IsInitialised :: "H235Session \<Rightarrow> bool" where
  "IsInitialised s = m_isInitialised s"

definition IsActive :: "H235Session \<Rightarrow> bool" where
  "IsActive s = (\<not> IsInitialised s)"

definition CreateSession ::
  "platform \<Rightarrow> (nat \<Rightarrow> byte) \<Rightarrow> H235Session \<Rightarrow> bool \<Rightarrow> H235Session \<times> bool" where
  "CreateSession pf rnd s isMaster =
     (let s1 = s\<lparr>m_isMaster := isMaster, m_isInitialised := True\<rparr>;
          s2 = s1\<lparr>m_dhSessionkey := m_dh s1\<rparr>;
          s3 = s2\<lparr>m_dhcontext := SetKey pf (m_dhcontext s2) (m_dhSessionkey s2)\<rparr>
      in
      if m_isMaster s3 then
        (case GenerateRandomKey pf rnd (m_context s3) of
           (e, k) \<Rightarrow> (s3\<lparr>m_context := e, m_crytoMasterKey := k\<rparr>, True))
      else (s3, True))"

text \<open>
  Lines 561 to 583. The flag \<open>Encrypt\<close> reports comes back in the local \<open>m_padding\<close> and
  is not stored in the frame.
\<close>

definition ReadFrame :: "H235Session \<Rightarrow> RTP_DataFrame \<Rightarrow> H235Session \<times> RTP_DataFrame \<times> bool" where
  "ReadFrame s frame =
     (let m_padding = padding frame in
      case Decrypt (m_context s) (payload frame) None m_padding of
        (e, buffer) \<Rightarrow> (s\<lparr>m_context := e\<rparr>, frame\<lparr>payload := buffer\<rparr>, True))"

definition WriteFrame :: "H235Session \<Rightarrow> RTP_DataFrame \<Rightarrow> H235Session \<times> RTP_DataFrame \<times> bool" where
  "WriteFrame s frame =
     (let m_padding = padding frame in
      case Encrypt (m_context s) (payload frame) None of
        (e, buffer, m_padding') \<Rightarrow> (s\<lparr>m_context := e\<rparr>, frame\<lparr>payload := buffer\<rparr>, True))"

section \<open>Instances for exercising the model\<close>

text \<open>
  A cipher of a given block size and mode whose \<open>do_cipher\<close> copies its input, and a
  context with cleared arrays for a given cipher.
\<close>

definition copy_cipher :: "nat \<Rightarrow> cipher_mode \<Rightarrow> EVP_CIPHER" where
  "copy_cipher bs m =
     \<lparr>block_size = bs, key_len = 16, iv_len = bs, mode = m,
      do_cipher_fn = (\<lambda>enc k v inp. Some (inp, v))\<rparr>"

definition blank_ctx :: "EVP_CIPHER \<Rightarrow> EVP_CIPHER_CTX" where
  "blank_ctx c =
     \<lparr>cipher = c, encrypt = False, key = [], oiv = replicate 16 0, iv = replicate 16 0,
      buf = replicate 32 0, buf_len = 0, final = replicate 32 0, final_used = False,
      no_padding = False, block_mask = 0\<rparr>"

section \<open>Vocabulary of the proofs\<close>

text \<open>
  Predicates and abbreviations used to state and prove the properties: what is assumed
  of the AES block transform and of a cipher in general, a context and an engine keyed
  for AES in CBC mode, the initialisation vector of a call, the ciphertext each path
  produces, and concrete platforms, engines and sessions on which the theorems are
  exercised.
\<close>

definition block_ok :: "platform \<Rightarrow> bool" where
  "block_ok pf = (\<forall>k b. length b = 16 \<longrightarrow>
      length (AES_encrypt pf k b) = 16 \<and> length (AES_decrypt pf k b) = 16
      \<and> AES_decrypt pf k (AES_encrypt pf k b) = b)"

definition cbc :: "platform \<Rightarrow> bool \<Rightarrow> bytes \<Rightarrow> nat \<Rightarrow> bytes \<Rightarrow> bytes \<Rightarrow> bytes \<times> bytes" where
  "cbc pf enc k n ivec inp =
     (if enc then CRYPTO_cbc128_encrypt (AES_encrypt pf k) n ivec inp
      else CRYPTO_cbc128_decrypt (AES_decrypt pf k) n ivec inp)"

definition aes_ctx :: "platform \<Rightarrow> nat \<Rightarrow> bytes \<Rightarrow> bool \<Rightarrow> EVP_CIPHER_CTX \<Rightarrow> bool" where
  "aes_ctx pf klen k enc ctx =
     (cipher ctx = EVP_aes_cbc pf klen \<and> key ctx = k \<and> encrypt ctx = enc
      \<and> length (buf ctx) = 32 \<and> length (final ctx) = 32
      \<and> length (iv ctx) = 16 \<and> length (oiv ctx) = 16)"

definition keyed :: "platform \<Rightarrow> nat \<Rightarrow> bytes \<Rightarrow> H235CryptoEngine \<Rightarrow> bool" where
  "keyed pf klen k eng =
     (aes_ctx pf klen k True (m_encryptCtx eng) \<and> aes_ctx pf klen k False (m_decryptCtx eng))"

definition seq_ok :: "bytes option \<Rightarrow> bool" where
  "seq_ok ivSequence = (case ivSequence of None \<Rightarrow> True | Some s \<Rightarrow> length s = IV_SEQUENCE_LEN)"

definition IV_of :: "bytes option \<Rightarrow> bytes" where
  "IV_of ivSequence = SetIV (replicate EVP_MAX_IV_LENGTH 0) ivSequence 16"

definition pkcs_pad :: "bytes \<Rightarrow> bytes" where
  "pkcs_pad P = P @ replicate (16 - length P) (of_nat (16 - length P))"

definition cts_X :: "platform \<Rightarrow> bytes \<Rightarrow> bytes \<Rightarrow> bytes \<Rightarrow> bytes" where
  "cts_X pf k v P =
     (let q = length P div 16;
          R = cbc pf True k (q - 1) v P
      in AES_encrypt pf k (xor_bytes 16 (take 16 (drop (16 * (q - 1)) P)) (snd R)))"

definition cts_Y :: "platform \<Rightarrow> bytes \<Rightarrow> bytes \<Rightarrow> bytes \<Rightarrow> bytes" where
  "cts_Y pf k v P =
     AES_encrypt pf k
       (xor_bytes 16 (drop (16 * (length P div 16)) P @ replicate (16 - length P mod 16) 0)
          (cts_X pf k v P))"

definition cts_ciphertext :: "platform \<Rightarrow> bytes \<Rightarrow> bytes \<Rightarrow> bytes \<Rightarrow> bytes" where
  "cts_ciphertext pf k v P =
     fst (cbc pf True k (length P div 16 - 1) v P) @ cts_Y pf k v P
       @ take (length P mod 16) (cts_X pf k v P)"

definition supported :: "platform \<Rightarrow> string \<Rightarrow> bool" where
  "supported pf oid =
     (oid = OID_AES128 \<or> oid = OID_AES192 \<or> (H323_H235_AES256 pf \<and> oid = OID_AES256))"

definition algorithm_key_len :: "string \<Rightarrow> nat" where
  "algorithm_key_len oid =
     (if oid = OID_AES128 then 16 else if oid = OID_AES192 then 24 else 32)"

definition test_platform :: platform where
  "test_platform =
     \<lparr>H323_H235_AES256 = True,
      AES_encrypt = (\<lambda>k b. map (\<lambda>x. x + of_nat (length k)) b),
      AES_decrypt = (\<lambda>k b. map (\<lambda>x. x - of_nat (length k)) b)\<rparr>"

text \<open>
  What the ciphertext-stealing steps need of a cipher: given a chaining value of
  \<open>EVP_MAX_IV_LENGTH\<close> bytes and a whole number of blocks, \<open>do_cipher\<close> returns 1, writes
  as many bytes as it read and leaves a chaining value of the same size.
\<close>

definition cipher_blocks :: "EVP_CIPHER \<Rightarrow> bool" where
  "cipher_blocks c =
     (\<forall>enc k v x. length v = EVP_MAX_IV_LENGTH \<and> block_size c dvd length x \<longrightarrow>
        (\<exists>out v'. do_cipher_fn c enc k v x = Some (out, v') \<and> length out = length x
           \<and> length v' = EVP_MAX_IV_LENGTH))"

text \<open>
  Modelled from the spec: OpenSSL's AES in ECB mode, \<open>aes_ecb_cipher\<close> of \<open>e_aes.c\<close>: each
  whole block of the input goes through the block transform on its own and the chaining
  value is not touched. \<open>SetKey\<close> never selects it; it is here to run the ECB branch of
  the ciphertext-stealing steps.
\<close>

fun ecb_blocks :: "(bytes \<Rightarrow> bytes) \<Rightarrow> nat \<Rightarrow> bytes \<Rightarrow> bytes" where
  "ecb_blocks block 0 inp = []"
| "ecb_blocks block (Suc n) inp = block (take 16 inp) @ ecb_blocks block n (drop 16 inp)"

definition aes_ecb_cipher :: "platform \<Rightarrow> bool \<Rightarrow> bytes \<Rightarrow> bytes \<Rightarrow> bytes \<Rightarrow> (bytes \<times> bytes) option" where
  "aes_ecb_cipher pf enc k ivec inp =
     Some (ecb_blocks (if enc then AES_encrypt pf k else AES_decrypt pf k) (length inp div 16) inp,
           ivec)"

definition EVP_aes_128_ecb :: "platform \<Rightarrow> EVP_CIPHER" where
  "EVP_aes_128_ecb pf =
     \<lparr>block_size = 16, key_len = 16, iv_len = 0, mode = EVP_CIPH_ECB_MODE,
      do_cipher_fn = aes_ecb_cipher pf\<rparr>"

definition cbc_engine :: H235CryptoEngine where
  "cbc_engine =
     H235CryptoEngine_new_key test_platform OID_AES128 (replicate 16 1)
       (blank_ctx (copy_cipher 16 EVP_CIPH_OFB_MODE)) (blank_ctx (copy_cipher 16 EVP_CIPH_OFB_MODE))"

definition ecb_engine :: H235CryptoEngine where
  "ecb_engine =
     cbc_engine\<lparr>m_encryptCtx :=
       EVP_EncryptInit_ex (EVP_CIPHER_CTX_init (m_encryptCtx cbc_engine))
         (Some (EVP_aes_128_ecb test_platform)) (Some (replicate 16 1)) None\<rparr>"

definition test_master :: H235Session where
  "test_master =
     fst (CreateSession test_platform of_nat
            (H235Session_new (replicate 16 3) OID_AES128
               (blank_ctx (copy_cipher 16 EVP_CIPH_ECB_MODE)) (blank_ctx (copy_cipher 16 EVP_CIPH_ECB_MODE))
               (blank_ctx (copy_cipher 16 EVP_CIPH_ECB_MODE)) (blank_ctx (copy_cipher 16 EVP_CIPH_ECB_MODE)))
            True)"

definition test_slave :: H235Session where
  "test_slave =
     fst (CreateSession test_platform of_nat
            (H235Session_new (replicate 16 3) OID_AES128
               (blank_ctx (copy_cipher 16 EVP_CIPH_ECB_MODE)) (blank_ctx (copy_cipher 16 EVP_CIPH_ECB_MODE))
               (blank_ctx (copy_cipher 16 EVP_CIPH_ECB_MODE)) (blank_ctx (copy_cipher 16 EVP_CIPH_ECB_MODE)))
            False)"

section \<open>Properties\<close>

declare SetIV_loop.simps [simp del]

subsection \<open>Initialisation vector\<close>

lemma memcpy_length: "off + n \<le> length dst \<Longrightarrow> n \<le> length src \<Longrightarrow> length (memcpy dst off src n) = length dst"
  by (simp add: memcpy_def)

lemma SetIV_loop_eq:
  "length s = 6 \<Longrightarrow> 6 * (ivLen div 6) \<le> length ivbuf \<Longrightarrow> i \<le> ivLen div 6 \<Longrightarrow>
   SetIV_loop ivbuf s i ivLen =
     take (6 * i) ivbuf @ concat (replicate (ivLen div 6 - i) s) @ drop (6 * (ivLen div 6)) ivbuf"
proof (induction ivbuf s i ivLen rule: SetIV_loop.induct)
  case (1 ivbuf s i ivLen)
  show ?case
  proof (cases "i < ivLen div 6")
    case True
    let ?b = "memcpy ivbuf (i * 6) s 6"
    have len: "length ?b = length ivbuf"
      using 1(2,3) True by (simp add: memcpy_def)
    have ih: "SetIV_loop ?b s (i + 1) ivLen =
       take (6 * (i + 1)) ?b @ concat (replicate (ivLen div 6 - (i + 1)) s) @ drop (6 * (ivLen div 6)) ?b"
      using 1(1)[OF _ 1(2)] True 1(3) len by (simp add: IV_SEQUENCE_LEN_def)
    have t: "take (6 * (i + 1)) ?b = take (6 * i) ivbuf @ s"
      using 1(2,3) True by (simp add: memcpy_def mult.commute)
    have d: "drop (6 * (ivLen div 6)) ?b = drop (6 * (ivLen div 6)) ivbuf"
      using 1(2,3) True by (simp add: memcpy_def mult.commute)
    have r: "replicate (ivLen div 6 - i) s = s # replicate (ivLen div 6 - (i + 1)) s"
      using True by (cases "ivLen div 6 - i") (auto simp: Suc_diff_Suc)
    show ?thesis
      using True ih t d r
      by (subst SetIV_loop.simps) (simp add: IV_SEQUENCE_LEN_def)
  next
    case False
    with 1(4) have "i = ivLen div 6" by simp
    then show ?thesis
      by (subst SetIV_loop.simps) (simp add: IV_SEQUENCE_LEN_def)
  qed
qed

text \<open>
  Claim C6. \<open>SetIV\<close> is a total function of its arguments, so it has no failure mode and
  the same arguments give the same vector. For every length \<open>L\<close> that fits the array:
  without a sequence value the first \<open>L\<close> bytes are zero; with a sequence value \<open>s\<close> of
  six bytes they are \<open>s\<close> repeated \<open>L div 6\<close> times followed by the first \<open>L mod 6\<close>
  bytes of \<open>s\<close>. The bytes of the array after the first \<open>L\<close> are left alone.
\<close>

theorem SetIV_tiles:
  assumes "length s = IV_SEQUENCE_LEN" and "L \<le> length ivbuf"
  shows "take L (SetIV ivbuf (Some s) L) = concat (replicate (L div 6) s) @ take (L mod 6) s
       \<and> take L (SetIV ivbuf None L) = replicate L 0
       \<and> drop L (SetIV ivbuf (Some s) L) = drop L ivbuf
       \<and> drop L (SetIV ivbuf None L) = drop L ivbuf"
proof -
  have s6: "length s = 6" using assms(1) by (simp add: IV_SEQUENCE_LEN_def)
  have le: "6 * (L div 6) \<le> length ivbuf" using assms(2) by (simp add: mult_div_mod_eq ) 
  have loop: "SetIV_loop ivbuf s 0 L = concat (replicate (L div 6) s) @ drop (6 * (L div 6)) ivbuf"
    using SetIV_loop_eq[OF s6 le, of 0] by simp
  have lc: "length (concat (replicate (L div 6) s)) = 6 * (L div 6)"
    using s6 by (induction "L div 6" arbitrary: L) (simp_all add: length_concat sum_list_replicate)
  have a: "take L (SetIV ivbuf (Some s) L) = concat (replicate (L div 6) s) @ take (L mod 6) s"
  proof (cases "L mod 6 > 0")
    case True
    have "L - L mod 6 = 6 * (L div 6)" "L - 6 * (L div 6) = L mod 6"
      by (simp_all add: minus_mod_eq_mult_div minus_mult_div_eq_mod)
    then show ?thesis
      using True loop lc s6 assms(2)
      by (simp add: SetIV_def IV_SEQUENCE_LEN_def memcpy_def)
  next
    case False
    then have "L = 6 * (L div 6)" by auto
    then show ?thesis
      using False loop lc s6 assms(2)
      by (simp add: SetIV_def IV_SEQUENCE_LEN_def)
  qed
  have b: "take L (SetIV ivbuf None L) = replicate L 0"
    by (simp add: SetIV_def memset_def)
  have c: "drop L (SetIV ivbuf (Some s) L) = drop L ivbuf"
  proof (cases "L mod 6 > 0")
    case True
    have "L - L mod 6 = 6 * (L div 6)" "L - 6 * (L div 6) = L mod 6"
      by (simp_all add: minus_mod_eq_mult_div minus_mult_div_eq_mod)
    then show ?thesis
      using True loop lc s6 assms(2)
      by (simp add: SetIV_def IV_SEQUENCE_LEN_def memcpy_def)
  next
    case False
    then have "L = 6 * (L div 6)" by auto
    then show ?thesis
      using False loop lc s6 assms(2)
      by (simp add: SetIV_def IV_SEQUENCE_LEN_def)
  qed
  have d: "drop L (SetIV ivbuf None L) = drop L ivbuf"
    using assms(2) by (simp add: SetIV_def memset_def)
  show ?thesis using a b c d by simp
qed

theorem SetIV_tiles_witness:
  "take 16 (SetIV (replicate 16 0) (Some [0, 1, 0xAA, 0xBB, 0xCC, 0xDD]) 16)
     = [0, 1, 0xAA, 0xBB, 0xCC, 0xDD, 0, 1, 0xAA, 0xBB, 0xCC, 0xDD, 0, 1, 0xAA, 0xBB]
   \<and> take 16 (SetIV (replicate 16 0xFF) None 16) = replicate 16 0"
proof -
  have h: "length [0, 1, 0xAA, 0xBB, 0xCC, 0xDD :: byte] = IV_SEQUENCE_LEN"
    "16 \<le> length (replicate 16 (0 :: byte))" "16 \<le> length (replicate 16 (0xFF :: byte))"
    by (simp_all add: IV_SEQUENCE_LEN_def)
  have r: "replicate (16 div 6) [0, 1, 0xAA, 0xBB, 0xCC, 0xDD :: byte]
      = [[0, 1, 0xAA, 0xBB, 0xCC, 0xDD], [0, 1, 0xAA, 0xBB, 0xCC, 0xDD]]"
    by (simp add: numeral_2_eq_2)
  show ?thesis
    using SetIV_tiles[OF h(1) h(2)] SetIV_tiles[OF h(1) h(3)] r by simp
qed


subsection \<open>Failures of the ciphertext-stealing final steps\<close>

text \<open>
  Claim C7. \<open>EVP_EncryptFinal_cts\<close> and \<open>EVP_DecryptFinal_cts\<close> return 0 with a
  missing-state message when no final block is pending or the partial buffer is empty,
  and they fail for every mode other than ECB and CBC: with the unsupported-mode message
  when that state is present, since the state checks come first in the source. In each
  of these cases nothing is written, \<open>*outl\<close> is 0 and the context is unchanged.
\<close>

theorem cts_final_failures:
  "(\<not> final_used ctx \<longrightarrow>
      EVP_EncryptFinal_cts ctx = result (Ret0 CTS_expecting_previous_ciphertext) ctx [] 0
    \<and> EVP_DecryptFinal_cts ctx = result (Ret0 CTS_expecting_previous_ciphertext) ctx [] 0)
 \<and> (final_used ctx \<and> buf_len ctx = 0 \<longrightarrow>
      EVP_EncryptFinal_cts ctx = result (Ret0 CTS_expecting_previous_plaintext) ctx [] 0
    \<and> EVP_DecryptFinal_cts ctx = result (Ret0 CTS_expecting_previous_ciphertext) ctx [] 0)
 \<and> (final_used ctx \<and> buf_len ctx \<noteq> 0 \<and> mode (cipher ctx) \<noteq> EVP_CIPH_ECB_MODE
      \<and> mode (cipher ctx) \<noteq> EVP_CIPH_CBC_MODE \<longrightarrow>
      EVP_EncryptFinal_cts ctx = result (Ret0 CTS_unsupported_mode) ctx [] 0
    \<and> EVP_DecryptFinal_cts ctx = result (Ret0 CTS_unsupported_mode) ctx [] 0)
 \<and> (mode (cipher ctx) \<noteq> EVP_CIPH_ECB_MODE \<and> mode (cipher ctx) \<noteq> EVP_CIPH_CBC_MODE \<longrightarrow>
      ret (EVP_EncryptFinal_cts ctx) \<noteq> Ret1 \<and> written (EVP_EncryptFinal_cts ctx) = []
    \<and> outl (EVP_EncryptFinal_cts ctx) = 0
    \<and> ret (EVP_DecryptFinal_cts ctx) \<noteq> Ret1 \<and> written (EVP_DecryptFinal_cts ctx) = []
    \<and> outl (EVP_DecryptFinal_cts ctx) = 0)"
  by (cases "mode (cipher ctx)")
     (simp_all add: EVP_EncryptFinal_cts_def EVP_DecryptFinal_cts_def Let_def result_def)

theorem cts_final_failures_witness:
  "\<not> final_used (blank_ctx (copy_cipher 16 EVP_CIPH_CBC_MODE))
   \<and> written (EVP_EncryptFinal_cts (blank_ctx (copy_cipher 16 EVP_CIPH_CBC_MODE))) = []
   \<and> ret (EVP_EncryptFinal_cts (blank_ctx (copy_cipher 16 EVP_CIPH_CBC_MODE)))
       = Ret0 CTS_expecting_previous_ciphertext
   \<and> final_used ((blank_ctx (copy_cipher 16 EVP_CIPH_CBC_MODE))\<lparr>final_used := True\<rparr>)
   \<and> buf_len ((blank_ctx (copy_cipher 16 EVP_CIPH_CBC_MODE))\<lparr>final_used := True\<rparr>) = 0
   \<and> ret (EVP_EncryptFinal_cts ((blank_ctx (copy_cipher 16 EVP_CIPH_CBC_MODE))\<lparr>final_used := True\<rparr>))
       = Ret0 CTS_expecting_previous_plaintext
   \<and> mode (cipher ((blank_ctx (copy_cipher 16 EVP_CIPH_OFB_MODE))\<lparr>final_used := True, buf_len := 4\<rparr>))
       = EVP_CIPH_OFB_MODE
   \<and> ret (EVP_DecryptFinal_cts ((blank_ctx (copy_cipher 16 EVP_CIPH_OFB_MODE))\<lparr>final_used := True, buf_len := 4\<rparr>))
       = Ret0 CTS_unsupported_mode
   \<and> outl (EVP_DecryptFinal_cts ((blank_ctx (copy_cipher 16 EVP_CIPH_OFB_MODE))\<lparr>final_used := True, buf_len := 4\<rparr>))
       = 0"
proof -
  let ?c1 = "blank_ctx (copy_cipher 16 EVP_CIPH_CBC_MODE)"
  let ?c2 = "?c1\<lparr>final_used := True\<rparr>"
  let ?c3 = "(blank_ctx (copy_cipher 16 EVP_CIPH_OFB_MODE))\<lparr>final_used := True, buf_len := 4\<rparr>"
  have h1: "\<not> final_used ?c1" by (simp add: blank_ctx_def)
  have h2: "final_used ?c2 \<and> buf_len ?c2 = 0" by (simp add: blank_ctx_def)
  have h3: "final_used ?c3 \<and> buf_len ?c3 \<noteq> 0 \<and> mode (cipher ?c3) \<noteq> EVP_CIPH_ECB_MODE
      \<and> mode (cipher ?c3) \<noteq> EVP_CIPH_CBC_MODE \<and> mode (cipher ?c3) = EVP_CIPH_OFB_MODE"
    by (simp add: blank_ctx_def copy_cipher_def)
  show ?thesis
    using h1 h2 h3 cts_final_failures[of ?c1] cts_final_failures[of ?c2] cts_final_failures[of ?c3]
    by (simp add: result_def)
qed

subsection \<open>Relaxed final block\<close>

text \<open>
  Claim C4. With padding enabled, a block size above 1, no partial data buffered and a
  final block held, \<open>EVP_DecryptFinal_relaxed\<close> reads \<open>n\<close> from the last byte of the final
  block. For \<open>1 \<le> n \<le> block_size\<close> it returns 1 and writes exactly the first
  \<open>block_size - n\<close> bytes of the final block, whatever the other padding bytes hold
  (overwriting any of them changes nothing). It returns 0 with the bad-decrypt message
  exactly when \<open>n = 0\<close> or \<open>n > block_size\<close>, and then writes nothing.
\<close>

theorem relaxed_final_block:
  assumes "\<not> no_padding ctx" and "b = block_size (cipher ctx)" and "1 < b"
    and "buf_len ctx = 0" and "final_used ctx"
    and "b \<le> length (final ctx)"
    and "n = unat (final ctx ! (b - 1))"
  shows "(1 \<le> n \<and> n \<le> b \<longrightarrow>
           EVP_DecryptFinal_relaxed ctx = result Ret1 ctx (take (b - n) (final ctx)) (b - n)
         \<and> length (written (EVP_DecryptFinal_relaxed ctx)) = b - n
         \<and> (\<forall>i v. b - n \<le> i \<and> i < b - 1 \<longrightarrow>
               ret (EVP_DecryptFinal_relaxed (ctx\<lparr>final := (final ctx)[i := v]\<rparr>)) = Ret1
             \<and> written (EVP_DecryptFinal_relaxed (ctx\<lparr>final := (final ctx)[i := v]\<rparr>))
                 = take (b - n) (final ctx)))
       \<and> (ret (EVP_DecryptFinal_relaxed ctx) = Ret0 Bad_decrypt \<longleftrightarrow> n = 0 \<or> b < n)
       \<and> (n = 0 \<or> b < n \<longrightarrow> EVP_DecryptFinal_relaxed ctx = result (Ret0 Bad_decrypt) ctx [] 0)"
  using assms by (auto simp add: EVP_DecryptFinal_relaxed_def Let_def result_def)

theorem relaxed_final_block_witness:
  "unat ((replicate 13 (0x41 :: byte) @ [7, 9, 3] @ replicate 16 0) ! (16 - 1)) = 3
   \<and> EVP_DecryptFinal_relaxed
        ((blank_ctx (copy_cipher 16 EVP_CIPH_CBC_MODE))
           \<lparr>final := replicate 13 0x41 @ [7, 9, 3] @ replicate 16 0, final_used := True\<rparr>)
      = result Ret1
          ((blank_ctx (copy_cipher 16 EVP_CIPH_CBC_MODE))
             \<lparr>final := replicate 13 0x41 @ [7, 9, 3] @ replicate 16 0, final_used := True\<rparr>)
          (replicate 13 0x41) 13"
proof -
  let ?f = "replicate 13 (0x41 :: byte) @ [7, 9, 3] @ replicate 16 0"
  let ?c = "(blank_ctx (copy_cipher 16 EVP_CIPH_CBC_MODE))\<lparr>final := ?f, final_used := True\<rparr>"
  have n: "unat (?f ! (16 - 1)) = 3" by (simp add: nth_append)
  have h: "\<not> no_padding ?c" "16 = block_size (cipher ?c)" "(1::nat) < 16" "buf_len ?c = 0"
    "final_used ?c" "16 \<le> length (final ?c)" "3 = unat (final ?c ! (16 - 1))"
    using n by (simp_all add: blank_ctx_def copy_cipher_def)
  show ?thesis
    using n relaxed_final_block[OF h] by simp
qed

subsection \<open>Session flags\<close>

text \<open>
  Claim C9. \<open>IsActive\<close> is the negation of \<open>IsInitialised\<close> in every session state; after
  \<open>CreateSession\<close>, which returns true, \<open>IsInitialised\<close> holds and \<open>IsActive\<close> does not.
\<close>

theorem session_flags:
  "IsActive s = (\<not> IsInitialised s)
   \<and> IsInitialised (fst (CreateSession pf rnd s isMaster))
   \<and> \<not> IsActive (fst (CreateSession pf rnd s isMaster))
   \<and> snd (CreateSession pf rnd s isMaster)"
  by (simp add: IsActive_def IsInitialised_def CreateSession_def Let_def split: prod.splits)

subsection \<open>The two update steps of ciphertext stealing\<close>

text \<open>
  Claim C10. \<open>EVP_DecryptUpdate_cts\<close> gives, for every context and input, the result of
  \<open>EVP_EncryptUpdate_cts\<close>: the same return value, bytes written, \<open>*outl\<close> and context.
\<close>

theorem decrypt_update_cts_is_encrypt_update_cts:
  "EVP_DecryptUpdate_cts ctx inp inl = EVP_EncryptUpdate_cts ctx inp inl"
  by (simp add: EVP_DecryptUpdate_cts_def)

subsection \<open>Bit masks, exclusive or and cipher block chaining\<close>

lemma and_15_mod: "(n::nat) AND 15 = n mod 16"
proof -
  have "n AND mask 4 = take_bit 4 n" by (simp add: take_bit_eq_mask)
  then show ?thesis by (simp add: take_bit_eq_mod mask_eq_exp_minus_1)
qed

lemma and_pow2_mod: "(n::nat) AND (2 ^ k - 1) = n mod 2 ^ k"
proof -
  have "n AND mask k = take_bit k n" by (simp add: take_bit_eq_mask)
  then show ?thesis by (simp add: take_bit_eq_mod mask_eq_exp_minus_1)
qed

lemma cts_arith:
  assumes "16 < (L::nat)"
  shows "16 * (L div 16 - 1) + (16 + L mod 16) = L"
    and "16 * (L div 16 - 1) + 16 \<le> L"
    and "16 * (L div 16 - 1) + 16 = 16 * (L div 16)"
proof -
  define q where "q = L div 16"
  define r where "r = L mod 16"
  have L: "L = 16 * q + r" by (simp add: q_def r_def)
  have q1: "1 \<le> q" using assms by (simp add: q_def)
  have "16 * (q - 1) + (16 + r) = L" "16 * (q - 1) + 16 \<le> L" "16 * (q - 1) + 16 = 16 * q"
    using L q1 by simp_all
  then show "16 * (L div 16 - 1) + (16 + L mod 16) = L"
    and "16 * (L div 16 - 1) + 16 \<le> L"
    and "16 * (L div 16 - 1) + 16 = 16 * (L div 16)"
    by (simp_all only: q_def r_def)
qed

lemma map2_xor_cancel:
  "length a = length b \<Longrightarrow> map2 (XOR) (map2 (XOR) a b) b = (a :: bytes)"
  by (induction a b rule: list_induct2) (simp_all add: xor.assoc)

lemma xor_bytes_full:
  "length a = bl \<Longrightarrow> length b = bl \<Longrightarrow> xor_bytes bl a b = map2 (XOR) a b"
  by (simp add: xor_bytes_def)

lemma xor_bytes_length:
  "length a = bl \<Longrightarrow> length b = bl \<Longrightarrow> length (xor_bytes bl a b) = bl"
  by (simp add: xor_bytes_def)

lemma xor_bytes_cancel:
  "length a = bl \<Longrightarrow> length b = bl \<Longrightarrow> xor_bytes bl (xor_bytes bl a b) b = a"
  by (simp add: xor_bytes_def map2_xor_cancel)

lemma cbc_enc_length:
  "(\<And>b. length b = 16 \<Longrightarrow> length (E b) = 16) \<Longrightarrow> length ivec = 16 \<Longrightarrow> 16 * n \<le> length inp \<Longrightarrow>
   length (fst (CRYPTO_cbc128_encrypt E n ivec inp)) = 16 * n
   \<and> length (snd (CRYPTO_cbc128_encrypt E n ivec inp)) = 16"
proof (induction n arbitrary: ivec inp)
  case 0
  then show ?case by simp
next
  case (Suc n)
  have l: "length (E (xor_bytes 16 (take 16 inp) ivec)) = 16"
    using Suc.prems by (simp add: xor_bytes_length)
  show ?case
    using Suc.IH[OF Suc.prems(1) l, of "drop 16 inp"] Suc.prems l
    by (simp add: Let_def)
qed

lemma cbc_dec_length:
  "(\<And>b. length b = 16 \<Longrightarrow> length (D b) = 16) \<Longrightarrow> length ivec = 16 \<Longrightarrow> 16 * n \<le> length inp \<Longrightarrow>
   length (fst (CRYPTO_cbc128_decrypt D n ivec inp)) = 16 * n
   \<and> length (snd (CRYPTO_cbc128_decrypt D n ivec inp)) = 16"
proof (induction n arbitrary: ivec inp)
  case 0
  then show ?case by simp
next
  case (Suc n)
  have l: "length (take 16 inp) = 16"
    using Suc.prems by simp
  show ?case
    using Suc.IH[OF Suc.prems(1) l, of "drop 16 inp"] Suc.prems l
    by (simp add: Let_def xor_bytes_length)
qed

lemma cbc_enc_take:
  "16 * n \<le> length inp \<Longrightarrow>
   CRYPTO_cbc128_encrypt E n ivec (take (16 * n) inp) = CRYPTO_cbc128_encrypt E n ivec inp"
proof (induction n arbitrary: ivec inp)
  case 0
  then show ?case by simp
next
  case (Suc n)
  have "take (16 * n) (drop 16 inp) = drop 16 (take (16 * Suc n) inp)"
    by (simp add: drop_take)
  then show ?case
    using Suc.IH[of "drop 16 inp"] Suc.prems
    by (simp add: Let_def min_def)
qed

lemma cbc_dec_take:
  "16 * n \<le> length inp \<Longrightarrow>
   CRYPTO_cbc128_decrypt D n ivec (take (16 * n) inp) = CRYPTO_cbc128_decrypt D n ivec inp"
proof (induction n arbitrary: ivec inp)
  case 0
  then show ?case by simp
next
  case (Suc n)
  have "take (16 * n) (drop 16 inp) = drop 16 (take (16 * Suc n) inp)"
    by (simp add: drop_take)
  then show ?case
    using Suc.IH[of "drop 16 inp"] Suc.prems
    by (simp add: Let_def min_def)
qed

lemma cbc_roundtrip:
  assumes E: "\<And>b. length b = 16 \<Longrightarrow> length (E b) = 16 \<and> D (E b) = b"
  shows "length ivec = 16 \<Longrightarrow> 16 * n \<le> length P \<Longrightarrow>
   CRYPTO_cbc128_decrypt D n ivec (fst (CRYPTO_cbc128_encrypt E n ivec P) @ rest)
     = (take (16 * n) P, snd (CRYPTO_cbc128_encrypt E n ivec P))"
proof (induction n arbitrary: ivec P)
  case 0
  then show ?case by simp
next
  case (Suc n)
  let ?x = "xor_bytes 16 (take 16 P) ivec"
  let ?c = "E ?x"
  have lx: "length ?x = 16" using Suc.prems by (simp add: xor_bytes_length)
  have lc: "length ?c = 16" using E[OF lx] by simp
  have dc: "D ?c = ?x" using E[OF lx] by simp
  have bk: "xor_bytes 16 ?x ivec = take 16 P"
    using Suc.prems by (simp add: xor_bytes_cancel)
  have ih: "CRYPTO_cbc128_decrypt D n ?c (fst (CRYPTO_cbc128_encrypt E n ?c (drop 16 P)) @ rest)
     = (take (16 * n) (drop 16 P), snd (CRYPTO_cbc128_encrypt E n ?c (drop 16 P)))"
    using Suc.IH[OF lc, of "drop 16 P"] Suc.prems by simp
  have tk: "take 16 P @ take (16 * n) (drop 16 P) = take (16 * Suc n) P"
    by (simp add: take_add[symmetric] add.commute)
  show ?case
    using ih lc dc bk tk by (simp add: Let_def)
qed

subsection \<open>The cipher call and the branches of the update step\<close>

lemma cbc_take: "16 * n \<le> length inp \<Longrightarrow> cbc pf enc k n ivec (take (16 * n) inp) = cbc pf enc k n ivec inp"
  by (simp add: cbc_def cbc_enc_take cbc_dec_take)

lemma do_cipher_aes:
  assumes "cipher ctx = EVP_aes_cbc pf klen" and "16 * n \<le> length inp"
  shows "do_cipher ctx inp (16 * n) =
     Some (ctx\<lparr>iv := snd (cbc pf (encrypt ctx) (key ctx) n (iv ctx) inp)\<rparr>,
           fst (cbc pf (encrypt ctx) (key ctx) n (iv ctx) inp))"
proof -
  have "do_cipher_fn (cipher ctx) (encrypt ctx) (key ctx) (iv ctx) (take (16 * n) inp)
      = Some (cbc pf (encrypt ctx) (key ctx) n (iv ctx) (take (16 * n) inp))"
    using assms by (simp add: EVP_aes_cbc_def aes_cbc_cipher_def cbc_def min_def)
  then show ?thesis
    using assms(2) by (simp add: do_cipher_def cbc_take split: prod.splits)
qed

lemma update_cts_short:
  assumes "buf_len ctx = 0" "\<not> final_used ctx" "bl = block_size (cipher ctx)"
    "bl < inl" "inl - bl \<le> bl"
  shows "EVP_EncryptUpdate_cts ctx inp inl =
     result Ret1
       (ctx\<lparr>buf := memcpy (memcpy (buf ctx) 0 inp bl) 0 (drop bl inp) (inl - bl),
             buf_len := inl - bl,
             final := memcpy (final ctx) 0 (memcpy (buf ctx) 0 inp bl) bl,
             final_used := True\<rparr>) [] 0"
  using assms by (cases ctx) (simp add: EVP_EncryptUpdate_cts_def Let_def)

lemma update_cts_long:
  assumes "buf_len ctx = 0" "\<not> final_used ctx" "bl = block_size (cipher ctx)"
    "bl < inl - bl" "leftover = (inl - bl) AND block_mask ctx" "leftover \<noteq> 0"
    "n = inl - bl - (bl + leftover)"
    "do_cipher_fn (cipher ctx) (encrypt ctx) (key ctx) (iv ctx) (take bl (memcpy (buf ctx) 0 inp bl))
       = Some (out1, v1)"
    "do_cipher_fn (cipher ctx) (encrypt ctx) (key ctx) v1 (take n (drop bl inp)) = Some (out2, v2)"
  shows "EVP_EncryptUpdate_cts ctx inp inl =
     result Ret1
       (ctx\<lparr>iv := v2,
             buf := memcpy (memcpy (buf ctx) 0 inp bl) 0 (drop (n + bl) (drop bl inp)) leftover,
             buf_len := leftover,
             final := memcpy (final ctx) 0 (drop n (drop bl inp)) bl,
             final_used := True\<rparr>) (out1 @ out2) (bl + n)"
  using assms by (cases ctx) (simp add: EVP_EncryptUpdate_cts_def Let_def do_cipher_def)

subsection \<open>The final steps and the OpenSSL steps, branch by branch\<close>

lemma enc_final_cbc:
  assumes "mode (cipher ctx) = EVP_CIPH_CBC_MODE" "final_used ctx" "buf_len ctx = l" "l \<noteq> 0"
    "bl = block_size (cipher ctx)"
    "do_cipher_fn (cipher ctx) (encrypt ctx) (key ctx) (iv ctx) (take bl (final ctx)) = Some (tmp, v1)"
    "do_cipher_fn (cipher ctx) (encrypt ctx) (key ctx) v1 (take bl (memset (buf ctx) l 0 (bl - l)))
       = Some (out, v2)"
  shows "EVP_EncryptFinal_cts ctx =
     result Ret1 (ctx\<lparr>iv := v2, buf := memset (buf ctx) l 0 (bl - l)\<rparr>) (out @ take l tmp) (bl + l)"
  using assms by (cases ctx) (simp add: EVP_EncryptFinal_cts_def Let_def do_cipher_def)

lemma enc_final_ecb:
  assumes "mode (cipher ctx) = EVP_CIPH_ECB_MODE" "final_used ctx" "buf_len ctx = l" "l \<noteq> 0"
    "bl = block_size (cipher ctx)"
    "do_cipher_fn (cipher ctx) (encrypt ctx) (key ctx) (iv ctx) (take bl (final ctx)) = Some (tmp, v1)"
    "do_cipher_fn (cipher ctx) (encrypt ctx) (key ctx) v1
        (take bl (memcpy (buf ctx) l (drop l tmp) (bl - l))) = Some (out, v2)"
  shows "EVP_EncryptFinal_cts ctx =
     result Ret1 (ctx\<lparr>iv := v2, buf := memcpy (buf ctx) l (drop l tmp) (bl - l)\<rparr>)
       (out @ take l tmp) (bl + l)"
  using assms by (cases ctx) (simp add: EVP_EncryptFinal_cts_def Let_def do_cipher_def)

lemma dec_final_cbc:
  assumes "mode (cipher ctx) = EVP_CIPH_CBC_MODE" "final_used ctx" "buf_len ctx = l" "l \<noteq> 0"
    "bl = block_size (cipher ctx)"
    "do_cipher_fn (cipher ctx) (encrypt ctx) (key ctx) (iv ctx) (take bl (final ctx)) = Some (tmp0, v1)"
    "tmp = xor_bytes bl (xor_bytes bl tmp0 (take bl (iv ctx))) (memset (buf ctx) l 0 (bl - l))"
    "b3 = memcpy (memset (buf ctx) l 0 (bl - l)) l (drop l tmp) (bl - l)"
    "do_cipher_fn (cipher ctx) (encrypt ctx) (key ctx) v1 (take bl b3) = Some (out0, v2)"
  shows "EVP_DecryptFinal_cts ctx =
     result Ret1 (ctx\<lparr>iv := v2, buf := b3\<rparr>)
       (xor_bytes bl (xor_bytes bl out0 (final ctx)) (take bl (iv ctx)) @ take l tmp) (bl + l)"
  using assms by (cases ctx) (simp add: EVP_DecryptFinal_cts_def Let_def do_cipher_def)

lemma encrypt_update_direct:
  assumes "buf_len ctx = 0" "inl \<noteq> 0" "inl AND block_mask ctx = 0"
    "do_cipher_fn (cipher ctx) (encrypt ctx) (key ctx) (iv ctx) (take inl inp) = Some (out, v)"
  shows "EVP_EncryptUpdate ctx outl0 inp inl = result Ret1 (ctx\<lparr>iv := v\<rparr>) out inl"
  using assms by (cases ctx) (simp add: EVP_EncryptUpdate_def Let_def do_cipher_def)

lemma encrypt_update_buffer:
  assumes "buf_len ctx = 0" "inl \<noteq> 0" "inl AND block_mask ctx = inl"
    "inl AND (block_size (cipher ctx) - 1) = inl"
  shows "EVP_EncryptUpdate ctx outl0 inp inl =
     result Ret1 (ctx\<lparr>buf := memcpy (buf ctx) 0 inp inl, buf_len := inl\<rparr>) [] 0"
  using assms by (cases ctx) (simp add: EVP_EncryptUpdate_def Let_def do_cipher_def)

lemma encrypt_final_pad:
  assumes "block_size (cipher ctx) = b" "b \<noteq> 1" "\<not> no_padding ctx" "buf_len ctx = l"
    "do_cipher_fn (cipher ctx) (encrypt ctx) (key ctx) (iv ctx)
       (take b (memset (buf ctx) l (of_nat (b - l)) (b - l))) = Some (out, v)"
  shows "EVP_EncryptFinal_ex ctx outl0 =
     result Ret1 (ctx\<lparr>iv := v, buf := memset (buf ctx) l (of_nat (b - l)) (b - l)\<rparr>) out b"
  using assms by (cases ctx) (simp add: EVP_EncryptFinal_ex_def Let_def do_cipher_def)

lemma encrypt_final_nopad:
  assumes "block_size (cipher ctx) \<noteq> 1" "no_padding ctx" "buf_len ctx = 0"
  shows "EVP_EncryptFinal_ex ctx outl0 = result Ret1 ctx [] 0"
  using assms by (simp add: EVP_EncryptFinal_ex_def Let_def)

subsection \<open>The update step for AES in CBC mode\<close>

lemma aes_fn:
  "do_cipher_fn (EVP_aes_cbc pf klen) enc k v X = Some (cbc pf enc k (length X div 16) v X)"
  by (simp add: EVP_aes_cbc_def aes_cbc_cipher_def cbc_def)

lemma aes_fields:
  "block_size (EVP_aes_cbc pf klen) = 16" "iv_len (EVP_aes_cbc pf klen) = 16"
  "mode (EVP_aes_cbc pf klen) = EVP_CIPH_CBC_MODE" "key_len (EVP_aes_cbc pf klen) = klen"
  by (simp_all add: EVP_aes_cbc_def)

lemma cbc_0: "cbc pf enc k 0 v X = ([], v)"
  by (simp add: cbc_def)

lemma cbc_Suc:
  "cbc pf enc k (Suc n) v X =
     (fst (cbc pf enc k 1 v (take 16 X)) @ fst (cbc pf enc k n (snd (cbc pf enc k 1 v (take 16 X))) (drop 16 X)),
      snd (cbc pf enc k n (snd (cbc pf enc k 1 v (take 16 X))) (drop 16 X)))"
  by (simp add: cbc_def Let_def)

lemma update_cts_aes:
  assumes c: "cipher ctx = EVP_aes_cbc pf klen"
    and f: "buf_len ctx = 0" "\<not> final_used ctx" "block_mask ctx = 15"
    and w: "length (buf ctx) = 32" "length (final ctx) = 32"
    and L: "16 < length inp" "length inp mod 16 \<noteq> 0"
    and q: "q = length inp div 16"
    and R: "R = cbc pf (encrypt ctx) (key ctx) (q - 1) (iv ctx) inp"
    and res: "res = EVP_EncryptUpdate_cts ctx inp (length inp)"
  shows "ret res = Ret1 \<and> written res = fst R \<and> outl res = 16 * (q - 1)
       \<and> iv (res_ctx res) = snd R \<and> buf_len (res_ctx res) = length inp mod 16
       \<and> final_used (res_ctx res)
       \<and> take (length inp mod 16) (buf (res_ctx res)) = drop (16 * q) inp
       \<and> take 16 (final (res_ctx res)) = take 16 (drop (16 * (q - 1)) inp)
       \<and> length (buf (res_ctx res)) = 32 \<and> length (final (res_ctx res)) = 32
       \<and> cipher (res_ctx res) = cipher ctx \<and> key (res_ctx res) = key ctx
       \<and> encrypt (res_ctx res) = encrypt ctx \<and> no_padding (res_ctx res) = no_padding ctx
       \<and> block_mask (res_ctx res) = block_mask ctx \<and> oiv (res_ctx res) = oiv ctx"
proof -
  let ?L = "length inp"
  let ?r = "?L mod 16"
  have Leq: "?L = 16 * q + ?r" using q by simp
  have q1: "1 \<le> q" using L(1) q by simp
  have bs: "block_size (cipher ctx) = 16" using c by (simp add: aes_fields)
  show ?thesis
  proof (cases "q = 1")
    case True
    have sh: "?L - 16 \<le> 16" using Leq True by simp
    have e: "res = result Ret1
       (ctx\<lparr>buf := memcpy (memcpy (buf ctx) 0 inp 16) 0 (drop 16 inp) (?L - 16),
             buf_len := ?L - 16,
             final := memcpy (final ctx) 0 (memcpy (buf ctx) 0 inp 16) 16,
             final_used := True\<rparr>) [] 0"
      unfolding res using update_cts_short[OF f(1) f(2) bs[symmetric] L(1) sh] .
    have r: "?L - 16 = ?r" using Leq True by simp
    show ?thesis
      using e r True R w L(1) Leq
      by (simp add: result_def cbc_0 memcpy_def)
  next
    case False
    then have q2: "2 \<le> q" using q1 by simp
    have lg: "16 < ?L - 16" using Leq q2 L(2) by simp
    have "?L mod 16 = (?L - 16) mod 16" using L(1) by (simp add: le_mod_geq)
    then have lo: "?r = (?L - 16) AND block_mask ctx"
      using f(3) by (simp add: and_15_mod)
    have n: "16 * (q - 2) = ?L - 16 - (16 + ?r)" using Leq q2 by simp
    let ?R1 = "cbc pf (encrypt ctx) (key ctx) 1 (iv ctx) (take 16 inp)"
    let ?R2 = "cbc pf (encrypt ctx) (key ctx) (q - 2) (snd ?R1) (drop 16 inp)"
    have t16: "take 16 (memcpy (buf ctx) 0 inp 16) = take 16 inp"
      using L(1) by (simp add: memcpy_def)
    have h1: "do_cipher_fn (cipher ctx) (encrypt ctx) (key ctx) (iv ctx)
        (take 16 (memcpy (buf ctx) 0 inp 16)) = Some (fst ?R1, snd ?R1)"
      using L(1) by (simp add: t16 c aes_fn)
    have h2: "do_cipher_fn (cipher ctx) (encrypt ctx) (key ctx) (snd ?R1)
        (take (16 * (q - 2)) (drop 16 inp)) = Some (fst ?R2, snd ?R2)"
      using Leq q2 by (simp add: c aes_fn cbc_take min_def)
    have e: "res = result Ret1
       (ctx\<lparr>iv := snd ?R2,
             buf := memcpy (memcpy (buf ctx) 0 inp 16) 0 (drop (16 * (q - 2) + 16) (drop 16 inp)) ?r,
             buf_len := ?r,
             final := memcpy (final ctx) 0 (drop (16 * (q - 2)) (drop 16 inp)) 16,
             final_used := True\<rparr>) (fst ?R1 @ fst ?R2) (16 + 16 * (q - 2))"
      unfolding res
      using update_cts_long[OF f(1) f(2) bs[symmetric] lg lo L(2) n h1 h2] .
    have Req: "R = (fst ?R1 @ fst ?R2, snd ?R2)"
    proof -
      have "q - 1 = Suc (q - 2)" using q2 by simp
      then show ?thesis unfolding R by (simp only: cbc_Suc)
    qed
    have d1: "16 * (q - 2) + 16 + 16 = 16 * q" "16 * (q - 2) + 16 = 16 * (q - 1)"
      "16 + 16 * (q - 2) = 16 * (q - 1)"
      using q2 by simp_all
    have tl: "length (drop (16 * q) inp) = ?r" using Leq by simp
    show ?thesis
      using e Req w L(1) Leq q2 d1 tl
      by (simp add: result_def memcpy_def add.commute)
  qed
qed

subsection \<open>The final steps for AES in CBC mode\<close>

lemma cbc_1_enc:
  "cbc pf True k (Suc 0) v B =
     (AES_encrypt pf k (xor_bytes 16 (take 16 B) v), AES_encrypt pf k (xor_bytes 16 (take 16 B) v))"
  by (simp add: cbc_def Let_def)

lemma cbc_1_dec:
  "cbc pf False k (Suc 0) v B = (xor_bytes 16 (AES_decrypt pf k (take 16 B)) v, take 16 B)"
  by (simp add: cbc_def Let_def)

lemma map2_xor_zero_left: "length a = n \<Longrightarrow> map2 (XOR) (replicate n 0) a = (a :: bytes)"
  by (induction a arbitrary: n) auto

lemma map2_xor_zero_right: "length a = n \<Longrightarrow> map2 (XOR) a (replicate n 0) = (a :: bytes)"
  by (induction a arbitrary: n) auto

lemma xor_steal:
  assumes "length tail = r" "length X = 16" "r \<le> 16"
  shows "map2 (XOR) (map2 (XOR) (tail @ replicate (16 - r) 0) X) (take r X @ replicate (16 - r) 0)
           = (tail @ drop r X :: bytes)"
proof -
  have X: "X = take r X @ drop r X" by simp
  have l1: "length (take r X) = r" "length (drop r X) = 16 - r" using assms by simp_all
  have a: "map2 (XOR) (tail @ replicate (16 - r) 0) X
      = map2 (XOR) tail (take r X) @ map2 (XOR) (replicate (16 - r) 0) (drop r X)"
    using assms l1 by (subst X) (simp del: append_take_drop_id)
  have b: "map2 (XOR) (map2 (XOR) tail (take r X) @ map2 (XOR) (replicate (16 - r) 0) (drop r X))
              (take r X @ replicate (16 - r) 0)
      = map2 (XOR) (map2 (XOR) tail (take r X)) (take r X)
        @ map2 (XOR) (map2 (XOR) (replicate (16 - r) 0) (drop r X)) (replicate (16 - r) 0)"
    using assms l1 by simp
  show ?thesis
    using assms l1 by (simp only: a b) (simp add: map2_xor_cancel map2_xor_zero_left map2_xor_zero_right)
qed

lemma block_okD:
  "block_ok pf \<Longrightarrow> length b = 16 \<Longrightarrow>
     length (AES_encrypt pf k b) = 16 \<and> length (AES_decrypt pf k b) = 16
     \<and> AES_decrypt pf k (AES_encrypt pf k b) = b"
  by (simp add: block_ok_def)

lemma enc_final_aes:
  assumes ok: "block_ok pf" and c: "cipher ctx = EVP_aes_cbc pf klen" and e: "encrypt ctx"
    and fu: "final_used ctx" and bl: "buf_len ctx = r" "0 < r" "r < 16"
    and w: "length (buf ctx) = 32" "length (final ctx) = 32" "length (iv ctx) = 16"
    and X: "X = AES_encrypt pf (key ctx) (xor_bytes 16 (take 16 (final ctx)) (iv ctx))"
    and Y: "Y = AES_encrypt pf (key ctx) (xor_bytes 16 (take r (buf ctx) @ replicate (16 - r) 0) X)"
  shows "EVP_EncryptFinal_cts ctx =
     result Ret1 (ctx\<lparr>iv := Y, buf := memset (buf ctx) r 0 (16 - r)\<rparr>) (Y @ take r X) (16 + r)"
proof -
  have bs: "16 = block_size (cipher ctx)" and m: "mode (cipher ctx) = EVP_CIPH_CBC_MODE"
    using c by (simp_all add: aes_fields)
  have h1: "do_cipher_fn (cipher ctx) (encrypt ctx) (key ctx) (iv ctx) (take 16 (final ctx)) = Some (X, X)"
    using w e by (simp add: c aes_fn cbc_1_enc X)
  have t: "take 16 (memset (buf ctx) r 0 (16 - r)) = take r (buf ctx) @ replicate (16 - r) 0"
    using w bl by (simp add: memset_def)
  have h2: "do_cipher_fn (cipher ctx) (encrypt ctx) (key ctx) X (take 16 (memset (buf ctx) r 0 (16 - r)))
      = Some (Y, Y)"
    using w e bl by (simp add: t c aes_fn cbc_1_enc Y)
  show ?thesis
    using enc_final_cbc[OF m fu bl(1) _ bs h1 h2] bl by simp
qed

lemma dec_final_aes:
  assumes ok: "block_ok pf" and c: "cipher ctx = EVP_aes_cbc pf klen" and e: "\<not> encrypt ctx"
    and fu: "final_used ctx" and bl: "buf_len ctx = r" "0 < r" "r < 16"
    and w: "length (buf ctx) = 32" "length (final ctx) = 32" "length (iv ctx) = 16"
    and P: "length Pq = 16" "length tail = r"
    and X: "X = AES_encrypt pf (key ctx) (xor_bytes 16 Pq (iv ctx))"
    and Y: "Y = AES_encrypt pf (key ctx) (xor_bytes 16 (tail @ replicate (16 - r) 0) X)"
    and fin: "take 16 (final ctx) = Y" and bu: "take r (buf ctx) = take r X"
  shows "\<exists>c'. EVP_DecryptFinal_cts ctx = result Ret1 c' (Pq @ tail) (16 + r)
          \<and> cipher c' = cipher ctx \<and> key c' = key ctx \<and> encrypt c' = encrypt ctx
          \<and> length (buf c') = 32 \<and> length (final c') = 32 \<and> length (iv c') = 16
          \<and> length (oiv c') = length (oiv ctx)"
proof -
  let ?k = "key ctx"
  let ?V = "iv ctx"
  have bs: "16 = block_size (cipher ctx)" and m: "mode (cipher ctx) = EVP_CIPH_CBC_MODE"
    using c by (simp_all add: aes_fields)
  have lPV: "length (xor_bytes 16 Pq ?V) = 16" using P w by (simp add: xor_bytes_length)
  have lX: "length X = 16" and dX: "AES_decrypt pf ?k X = xor_bytes 16 Pq ?V"
    using block_okD[OF ok lPV, of ?k] X by simp_all
  let ?T = "tail @ replicate (16 - r) 0"
  have lT: "length ?T = 16" using P bl by simp
  have lTX: "length (xor_bytes 16 ?T X) = 16" using lT lX by (simp add: xor_bytes_length)
  have lY: "length Y = 16" and dY: "AES_decrypt pf ?k Y = xor_bytes 16 ?T X"
    using block_okD[OF ok lTX, of ?k] Y by simp_all
  let ?ta = "xor_bytes 16 (xor_bytes 16 ?T X) ?V"
  have h1: "do_cipher_fn (cipher ctx) (encrypt ctx) ?k ?V (take 16 (final ctx)) = Some (?ta, Y)"
    using w e lY by (simp add: c aes_fn cbc_1_dec fin dY)
  have t1: "xor_bytes 16 ?ta (take 16 ?V) = xor_bytes 16 ?T X"
    using w lTX by (simp add: xor_bytes_cancel)
  have tb: "take 16 (memset (buf ctx) r 0 (16 - r)) = take r X @ replicate (16 - r) 0"
    using w bl bu lX by (simp add: memset_def)
  let ?tmp = "tail @ drop r X"
  have tmp: "?tmp = xor_bytes 16 (xor_bytes 16 ?ta (take 16 ?V)) (memset (buf ctx) r 0 (16 - r))"
  proof -
    have "xor_bytes 16 (xor_bytes 16 ?T X) (memset (buf ctx) r 0 (16 - r))
        = map2 (XOR) (map2 (XOR) ?T X) (take r X @ replicate (16 - r) 0)"
      using lT lX lTX tb P bl by (simp add: xor_bytes_def)
    also have "\<dots> = ?tmp" using xor_steal[OF P(2) lX] bl by simp
    finally show ?thesis using t1 by simp
  qed
  let ?bc = "memcpy (memset (buf ctx) r 0 (16 - r)) r (drop r ?tmp) (16 - r)"
  have t3: "take 16 ?bc = X"
  proof -
    have "take 16 ?bc = take r X @ drop r X"
      using w bl bu P lX by (simp add: memcpy_def memset_def)
    then show ?thesis by simp
  qed
  let ?oa = "xor_bytes 16 (xor_bytes 16 Pq ?V) Y"
  have h2: "do_cipher_fn (cipher ctx) (encrypt ctx) ?k Y (take 16 ?bc) = Some (?oa, X)"
    unfolding t3 using e lX by (simp add: c aes_fn cbc_1_dec dX)
  have r: "EVP_DecryptFinal_cts ctx =
     result Ret1 (ctx\<lparr>iv := X, buf := ?bc\<rparr>)
       (xor_bytes 16 (xor_bytes 16 ?oa (final ctx)) (take 16 ?V) @ take r ?tmp) (16 + r)"
    using dec_final_cbc[OF m fu bl(1) _ bs h1 tmp refl h2] bl by simp
  have o1: "xor_bytes 16 ?oa (final ctx) = xor_bytes 16 Pq ?V"
  proof -
    have "xor_bytes 16 ?oa (final ctx) = xor_bytes 16 ?oa (take 16 (final ctx))"
      by (simp add: xor_bytes_def)
    then show ?thesis using lPV lY by (simp add: fin xor_bytes_cancel)
  qed
  have o2: "xor_bytes 16 (xor_bytes 16 Pq ?V) (take 16 ?V) = Pq"
    using P w by (simp add: xor_bytes_cancel)
  have tt: "take r ?tmp = tail" using P by simp
  have lb3: "length ?bc = 32" using w bl P lX by (simp add: memcpy_def memset_def)
  show ?thesis
    using r o1 o2 tt lb3 w lX by (intro exI[of _ "ctx\<lparr>iv := X, buf := ?bc\<rparr>"]) simp
qed

subsection \<open>Keyed contexts, the initialisation vector and the output array\<close>

lemma length_concat_replicate: "length (concat (replicate n s)) = n * length s"
  by (induction n) simp_all

lemma SetIV_length:
  assumes "seq_ok ivSequence" and "L \<le> length ivbuf"
  shows "length (SetIV ivbuf ivSequence L) = length ivbuf"
proof (cases ivSequence)
  case None
  then show ?thesis using assms(2) by (simp add: SetIV_def memset_def)
next
  case (Some s)
  then have s6: "length s = 6" using assms(1) by (simp add: seq_ok_def IV_SEQUENCE_LEN_def)
  have le: "6 * (L div 6) \<le> length ivbuf"
    using assms(2) by (simp add: mult_div_mod_eq)
  have loop: "SetIV_loop ivbuf s 0 L = concat (replicate (L div 6) s) @ drop (6 * (L div 6)) ivbuf"
    using SetIV_loop_eq[OF s6 le, of 0] by simp
  have ll: "length (SetIV_loop ivbuf s 0 L) = length ivbuf"
    using le s6 by (simp add: loop length_concat_replicate)
  have m: "L - L mod 6 \<le> L" "L mod 6 \<le> 6" by simp_all
  show ?thesis
    using Some ll s6 assms(2) m
    by (simp add: SetIV_def Let_def IV_SEQUENCE_LEN_def memcpy_def)
qed

lemma IV_of_length: "seq_ok ivSequence \<Longrightarrow> length (IV_of ivSequence) = 16"
  using SetIV_length[of ivSequence 16 "replicate EVP_MAX_IV_LENGTH 0"]
  by (simp add: IV_of_def EVP_MAX_IV_LENGTH_def)

lemma init_aes:
  assumes "aes_ctx pf klen k e0 ctx" "length ivb = 16"
    and "c = EVP_CIPHER_CTX_set_padding (EVP_CipherInit_ex ctx None None (Some ivb) enc) pad"
  shows "aes_ctx pf klen k enc c \<and> iv c = ivb \<and> buf_len c = 0 \<and> \<not> final_used c
       \<and> block_mask c = 15 \<and> no_padding c = (\<not> pad)"
  using assms
  by (simp add: aes_ctx_def EVP_CIPHER_CTX_set_padding_def EVP_CipherInit_ex_def Let_def aes_fields
      memcpy_def)

lemma assemble:
  assumes "n1 \<le> length w1" "length w1 \<le> N" "length w2 = n2" "n1 + n2 \<le> N"
  shows "SetSize (write_at (write_at (PBYTEArray_new N) 0 w1) n1 w2) (n1 + n2) = take n1 w1 @ w2"
  using assms by (simp add: SetSize_def write_at_def PBYTEArray_new_def memcpy_def)

lemma decrypt_update_hold:
  assumes "\<not> no_padding ctx" "\<not> final_used ctx" "buf_len ctx = 0" "inl \<noteq> 0"
    "inl AND block_mask ctx = 0" "1 < block_size (cipher ctx)" "b = block_size (cipher ctx)"
    "do_cipher_fn (cipher ctx) (encrypt ctx) (key ctx) (iv ctx) (take inl inp) = Some (out, v)"
  shows "EVP_DecryptUpdate ctx outl0 inp inl =
     result Ret1 (ctx\<lparr>iv := v, final_used := True, final := memcpy (final ctx) 0 (drop (inl - b) out) b\<rparr>)
       out (inl - b)"
  using assms
  by (cases ctx) (simp add: EVP_DecryptUpdate_def EVP_EncryptUpdate_def Let_def do_cipher_def result_def)

lemma decrypt_update_nopad:
  "no_padding ctx \<Longrightarrow> inl \<noteq> 0 \<Longrightarrow>
     EVP_DecryptUpdate ctx outl0 inp inl = EVP_EncryptUpdate ctx outl0 inp inl"
  by (simp add: EVP_DecryptUpdate_def)

subsection \<open>The padded and the unpadded path\<close>

lemma cbc_lengths:
  assumes "block_ok pf" "length v = 16" "16 * n \<le> length M"
  shows "length (fst (cbc pf enc k n v M)) = 16 * n \<and> length (snd (cbc pf enc k n v M)) = 16"
proof (cases enc)
  case True
  have "\<And>b. length b = 16 \<Longrightarrow> length (AES_encrypt pf k b) = 16"
    using block_okD[OF assms(1)] by simp
  from cbc_enc_length[of "AES_encrypt pf k", OF this assms(2,3)] True
  show ?thesis by (simp add: cbc_def)
next
  case False
  have "\<And>b. length b = 16 \<Longrightarrow> length (AES_decrypt pf k b) = 16"
    using block_okD[OF assms(1)] by simp
  from cbc_dec_length[of "AES_decrypt pf k", OF this assms(2,3)] False
  show ?thesis by (simp add: cbc_def)
qed

lemma enc_short_update:
  assumes a: "aes_ctx pf klen k enc c" and f: "buf_len c = 0" "block_mask c = 15"
    and L: "length P < 16"
  shows "\<exists>c'. EVP_EncryptUpdate c o0 P (length P) = result Ret1 c' [] 0
          \<and> aes_ctx pf klen k enc c' \<and> iv c' = iv c \<and> buf_len c' = length P
          \<and> take (length P) (buf c') = P \<and> no_padding c' = no_padding c
          \<and> final_used c' = final_used c"
proof (cases "length P = 0")
  case True
  then show ?thesis using a f by (intro exI[of _ c]) (simp add: EVP_EncryptUpdate_def)
next
  case False
  have bs: "block_size (cipher c) = 16" using a by (simp add: aes_ctx_def aes_fields)
  have m: "length P AND block_mask c = length P" "length P AND (block_size (cipher c) - 1) = length P"
    using L f bs by (simp_all add: and_15_mod)
  let ?c = "c\<lparr>buf := memcpy (buf c) 0 P (length P), buf_len := length P\<rparr>"
  have "EVP_EncryptUpdate c o0 P (length P) = result Ret1 ?c [] 0"
    using encrypt_update_buffer[OF f(1) False m] .
  then show ?thesis
    using a L by (intro exI[of _ ?c]) (simp add: aes_ctx_def memcpy_def)
qed

lemma enc_final_pad_aes:
  assumes ok: "block_ok pf" and a: "aes_ctx pf klen k True c" and np: "\<not> no_padding c"
    and bl: "buf_len c = length P" "length P < 16" "take (length P) (buf c) = P"
  shows "\<exists>c'. EVP_EncryptFinal_ex c o0 =
            result Ret1 c' (AES_encrypt pf k (xor_bytes 16 (pkcs_pad P) (iv c))) 16
          \<and> aes_ctx pf klen k True c'"
proof -
  let ?n = "16 - length P"
  let ?b = "memset (buf c) (length P) (of_nat ?n) ?n"
  let ?C = "AES_encrypt pf k (xor_bytes 16 (pkcs_pad P) (iv c))"
  have bs: "block_size (cipher c) = 16" and ci: "cipher c = EVP_aes_cbc pf klen"
    and w: "length (buf c) = 32" "length (iv c) = 16" "key c = k" "encrypt c"
    using a by (simp_all add: aes_ctx_def aes_fields)
  have t: "take 16 ?b = pkcs_pad P"
    using w bl by (simp add: memset_def pkcs_pad_def)
  have lp: "length (xor_bytes 16 (pkcs_pad P) (iv c)) = 16"
    using w bl by (simp add: xor_bytes_length pkcs_pad_def)
  have lC: "length ?C = 16" using block_okD[OF ok lp] by simp
  have h: "do_cipher_fn (cipher c) (encrypt c) (key c) (iv c) (take 16 ?b) = Some (?C, ?C)"
    unfolding t using w bl by (simp add: ci aes_fn cbc_1_enc pkcs_pad_def)
  have "EVP_EncryptFinal_ex c o0 = result Ret1 (c\<lparr>iv := ?C, buf := ?b\<rparr>) ?C 16"
    using encrypt_final_pad[OF bs _ np bl(1) h] by simp
  moreover have "aes_ctx pf klen k True (c\<lparr>iv := ?C, buf := ?b\<rparr>)"
    using a lC bl by (simp add: aes_ctx_def memset_def)
  ultimately show ?thesis by blast
qed

lemma update_direct_aes:
  assumes ok: "block_ok pf" and a: "aes_ctx pf klen k enc c" and f: "buf_len c = 0" "block_mask c = 15"
    and M: "length M = 16 * n" "1 \<le> n"
  shows "\<exists>c'. EVP_EncryptUpdate c o0 M (length M) = result Ret1 c' (fst (cbc pf enc k n (iv c) M)) (16 * n)
          \<and> aes_ctx pf klen k enc c' \<and> buf_len c' = 0 \<and> no_padding c' = no_padding c
          \<and> final_used c' = final_used c \<and> final c' = final c"
proof -
  let ?R = "cbc pf enc k n (iv c) M"
  have ci: "cipher c = EVP_aes_cbc pf klen" and w: "length (iv c) = 16" "key c = k" "encrypt c = enc"
    using a by (simp_all add: aes_ctx_def)
  have nz: "length M \<noteq> 0" and m: "length M AND block_mask c = 0"
    using M f by (simp_all add: and_15_mod)
  have h: "do_cipher_fn (cipher c) (encrypt c) (key c) (iv c) (take (length M) M) = Some (fst ?R, snd ?R)"
    using M w by (simp add: ci aes_fn)
  have "EVP_EncryptUpdate c o0 M (length M) = result Ret1 (c\<lparr>iv := snd ?R\<rparr>) (fst ?R) (length M)"
    using encrypt_update_direct[OF f(1) nz m h] .
  moreover have "aes_ctx pf klen k enc (c\<lparr>iv := snd ?R\<rparr>)"
    using a cbc_lengths[OF ok w(1), of n M enc k] M by (simp add: aes_ctx_def)
  ultimately show ?thesis using M f by (intro exI[of _ "c\<lparr>iv := snd ?R\<rparr>"]) simp
qed

lemma relaxed_nopad:
  "no_padding c \<Longrightarrow> buf_len c = 0 \<Longrightarrow> EVP_DecryptFinal_relaxed c = result Ret1 c [] 0"
  by (simp add: EVP_DecryptFinal_relaxed_def)

lemma dec_hold_aes:
  assumes ok: "block_ok pf" and a: "aes_ctx pf klen k False c"
    and f: "\<not> no_padding c" "\<not> final_used c" "buf_len c = 0" "block_mask c = 15"
    and C: "length C = 16"
    and W: "W = xor_bytes 16 (AES_decrypt pf k C) (iv c)"
  shows "\<exists>c'. EVP_DecryptUpdate c o0 C (length C) = result Ret1 c' W 0
          \<and> aes_ctx pf klen k False c' \<and> \<not> no_padding c' \<and> buf_len c' = 0 \<and> final_used c'
          \<and> take 16 (final c') = W"
proof -
  have ci: "cipher c = EVP_aes_cbc pf klen"
    and w: "length (iv c) = 16" "key c = k" "\<not> encrypt c" "length (final c) = 32"
    using a by (simp_all add: aes_ctx_def)
  have bs: "1 < block_size (cipher c)" "16 = block_size (cipher c)"
    using ci by (simp_all add: aes_fields)
  have nz: "length C \<noteq> 0" and m: "length C AND block_mask c = 0"
    using C f by (simp_all add: and_15_mod)
  have lD: "length (AES_decrypt pf k C) = 16" using block_okD[OF ok C] by simp
  have lW: "length W = 16" using lD w W by (simp add: xor_bytes_length)
  have h: "do_cipher_fn (cipher c) (encrypt c) (key c) (iv c) (take (length C) C) = Some (W, C)"
    using C w W by (simp add: ci aes_fn cbc_1_dec)
  let ?c = "c\<lparr>iv := C, final_used := True, final := memcpy (final c) 0 (drop (length C - 16) W) 16\<rparr>"
  have "EVP_DecryptUpdate c o0 C (length C) = result Ret1 ?c W (length C - 16)"
    using decrypt_update_hold[OF f(1,2,3) nz m bs h] .
  moreover have "aes_ctx pf klen k False ?c \<and> take 16 (final ?c) = W"
    using a C lW w by (simp add: aes_ctx_def memcpy_def)
  ultimately show ?thesis using C f by (intro exI[of _ ?c]) simp
qed

lemma relaxed_strip:
  assumes a: "aes_ctx pf klen k enc c" and f: "\<not> no_padding c" "buf_len c = 0" "final_used c"
    and p: "p = unat (take 16 (final c) ! 15)" "1 \<le> p" "p \<le> 16"
  shows "EVP_DecryptFinal_relaxed c = result Ret1 c (take (16 - p) (take 16 (final c))) (16 - p)"
proof -
  have bs: "block_size (cipher c) = 16" using a by (simp add: aes_ctx_def aes_fields)
  show ?thesis
    using f p bs by (simp add: EVP_DecryptFinal_relaxed_def Let_def min_def)
qed

subsection \<open>The ciphertext-stealing path\<close>

lemma cts_parts:
  assumes ok: "block_ok pf" and v: "length v = 16" and L: "16 < length P" "length P mod 16 \<noteq> 0"
  shows "length (fst (cbc pf True k (length P div 16 - 1) v P)) = 16 * (length P div 16 - 1)"
    and "length (snd (cbc pf True k (length P div 16 - 1) v P)) = 16"
    and "length (cts_X pf k v P) = 16"
    and "length (cts_Y pf k v P) = 16"
    and "length (cts_ciphertext pf k v P) = length P"
proof -
  let ?q = "length P div 16"
  let ?r = "length P mod 16"
  have Leq: "length P = 16 * ?q + ?r" by simp
  have q1: "1 \<le> ?q" using L(1) by simp
  have le: "16 * (?q - 1) \<le> length P" using Leq by linarith
  note cl = cbc_lengths[OF ok v le, of True k]
  show a: "length (fst (cbc pf True k (?q - 1) v P)) = 16 * (?q - 1)"
    and b: "length (snd (cbc pf True k (?q - 1) v P)) = 16"
    using cl by simp_all
  have "16 * (?q - 1) + 16 \<le> length P" using cts_arith(2)[OF L(1)] .
  then have lp: "length (take 16 (drop (16 * (?q - 1)) P)) = 16" by simp
  have "length (xor_bytes 16 (take 16 (drop (16 * (?q - 1)) P)) (snd (cbc pf True k (?q - 1) v P))) = 16"
    using lp b by (simp add: xor_bytes_length)
  from block_okD[OF ok this, of k]
  show x: "length (cts_X pf k v P) = 16" by (simp add: cts_X_def Let_def)
  have lt: "length (drop (16 * ?q) P @ replicate (16 - ?r) 0) = 16"
    by (simp add: minus_mult_div_eq_mod)
  have "length (xor_bytes 16 (drop (16 * ?q) P @ replicate (16 - ?r) 0) (cts_X pf k v P)) = 16"
    using lt x by (simp add: xor_bytes_length)
  from block_okD[OF ok this, of k]
  show y: "length (cts_Y pf k v P) = 16" by (simp add: cts_Y_def)
  have "16 * (?q - 1) + (16 + ?r) = length P" using cts_arith(1)[OF L(1)] .
  then show "length (cts_ciphertext pf k v P) = length P"
    using a x y by (simp add: cts_ciphertext_def)
qed

lemma enc_cts_aes:
  assumes ok: "block_ok pf" and a: "aes_ctx pf klen k True c"
    and f: "buf_len c = 0" "\<not> final_used c" "block_mask c = 15"
    and L: "16 < length P" "length P mod 16 \<noteq> 0"
    and r1: "r1 = EVP_EncryptUpdate_cts c P (length P)"
  shows "ret r1 = Ret1 \<and> written r1 = fst (cbc pf True k (length P div 16 - 1) (iv c) P)
       \<and> outl r1 = 16 * (length P div 16 - 1)
       \<and> (\<exists>c'. EVP_EncryptFinal_cts (res_ctx r1) =
              result Ret1 c' (cts_Y pf k (iv c) P @ take (length P mod 16) (cts_X pf k (iv c) P))
                (16 + length P mod 16)
            \<and> aes_ctx pf klen k True c')"
proof -
  let ?q = "length P div 16"
  let ?r = "length P mod 16"
  let ?R = "cbc pf True k (?q - 1) (iv c) P"
  have ci: "cipher c = EVP_aes_cbc pf klen"
    and w: "length (buf c) = 32" "length (final c) = 32" "length (iv c) = 16" "key c = k" "encrypt c"
      "length (oiv c) = 16"
    using a by (simp_all add: aes_ctx_def)
  have R: "?R = cbc pf (encrypt c) (key c) (?q - 1) (iv c) P" using w by simp
  note u = update_cts_aes[OF ci f w(1,2) L refl R r1]
  note p = cts_parts[OF ok w(3) L, of k]
  let ?c1 = "res_ctx r1"
  have X: "cts_X pf k (iv c) P
      = AES_encrypt pf (key ?c1) (xor_bytes 16 (take 16 (final ?c1)) (iv ?c1))"
    using u w by (simp add: cts_X_def Let_def)
  have Y: "cts_Y pf k (iv c) P
      = AES_encrypt pf (key ?c1) (xor_bytes 16 (take ?r (buf ?c1) @ replicate (16 - ?r) 0) (cts_X pf k (iv c) P))"
    using u w by (simp add: cts_Y_def)
  have c1: "cipher ?c1 = EVP_aes_cbc pf klen" "encrypt ?c1" "final_used ?c1" "buf_len ?c1 = ?r"
    "length (buf ?c1) = 32" "length (final ?c1) = 32" "length (iv ?c1) = 16"
    using u w ci p(2) by simp_all
  have rr: "0 < ?r" "?r < 16" using L(2) by simp_all
  note e = enc_final_aes[OF ok c1(1,2,3,4) rr c1(5,6,7) X Y]
  let ?c' = "?c1\<lparr>iv := cts_Y pf k (iv c) P, buf := memset (buf ?c1) ?r 0 (16 - ?r)\<rparr>"
  have "aes_ctx pf klen k True ?c'"
    using u w ci p(4) c1 rr by (simp add: aes_ctx_def memset_def)
  then show ?thesis using u e by blast
qed

lemma dec_cts_aes:
  assumes ok: "block_ok pf" and a: "aes_ctx pf klen k False c"
    and f: "buf_len c = 0" "\<not> final_used c" "block_mask c = 15"
    and L: "16 < length P" "length P mod 16 \<noteq> 0"
    and C: "C = cts_ciphertext pf k (iv c) P"
    and r1: "r1 = EVP_EncryptUpdate_cts c C (length C)"
  shows "ret r1 = Ret1 \<and> written r1 = take (16 * (length P div 16 - 1)) P
       \<and> outl r1 = 16 * (length P div 16 - 1)
       \<and> (\<exists>c'. EVP_DecryptFinal_cts (res_ctx r1) =
              result Ret1 c' (take 16 (drop (16 * (length P div 16 - 1)) P) @ drop (16 * (length P div 16)) P)
                (16 + length P mod 16)
            \<and> aes_ctx pf klen k False c')"
proof -
  let ?q = "length P div 16"
  let ?r = "length P mod 16"
  let ?R = "cbc pf True k (?q - 1) (iv c) P"
  let ?X = "cts_X pf k (iv c) P"
  let ?Y = "cts_Y pf k (iv c) P"
  have ci: "cipher c = EVP_aes_cbc pf klen"
    and w: "length (buf c) = 32" "length (final c) = 32" "length (iv c) = 16" "key c = k" "\<not> encrypt c"
      "length (oiv c) = 16"
    using a by (simp_all add: aes_ctx_def)
  note p = cts_parts[OF ok w(3) L, of k]
  have Leq: "length P = 16 * ?q + ?r" by simp
  have q1: "1 \<le> ?q" using L(1) by simp
  have lC: "length C = length P" using p(5) C by simp
  have LC: "16 < length C" "length C mod 16 \<noteq> 0" using L lC by simp_all
  have Cq: "length C div 16 = ?q" using lC by simp
  have le: "16 * (?q - 1) \<le> length P" using Leq by linarith
  have ED: "\<And>b. length b = 16 \<Longrightarrow> length (AES_encrypt pf k b) = 16 \<and> AES_decrypt pf k (AES_encrypt pf k b) = b"
    using block_okD[OF ok] by simp
  have Cdef: "C = fst ?R @ (?Y @ take ?r ?X)" using C by (simp add: cts_ciphertext_def)
  have rt: "cbc pf False k (?q - 1) (iv c) C = (take (16 * (?q - 1)) P, snd ?R)"
    unfolding Cdef
    using cbc_roundtrip[of "AES_encrypt pf k" "AES_decrypt pf k", OF ED w(3) le, of "?Y @ take ?r ?X"]
    by (simp add: cbc_def)
  have R: "(take (16 * (?q - 1)) P, snd ?R) = cbc pf (encrypt c) (key c) (length C div 16 - 1) (iv c) C"
    using w rt Cq by simp
  note u = update_cts_aes[OF ci f w(1,2) LC refl R r1]
  let ?c1 = "res_ctx r1"
  have d1: "drop (16 * ?q) C = take ?r ?X"
  proof -
    have "16 * ?q = length (fst ?R) + 16" using p(1) q1 by simp
    then show ?thesis using p by (simp add: Cdef)
  qed
  have d2: "take 16 (drop (16 * (?q - 1)) C) = ?Y"
    using p by (simp add: Cdef)
  have rr: "0 < ?r" "?r < 16" using L(2) by simp_all
  have c1: "cipher ?c1 = EVP_aes_cbc pf klen" "\<not> encrypt ?c1" "final_used ?c1" "buf_len ?c1 = ?r"
    "length (buf ?c1) = 32" "length (final ?c1) = 32" "length (iv ?c1) = 16"
    using u w ci p(2) lC by simp_all
  have "16 * (?q - 1) + 16 \<le> length P" using cts_arith(2)[OF L(1)] .
  then have P': "length (take 16 (drop (16 * (?q - 1)) P)) = 16" "length (drop (16 * ?q) P) = ?r"
    by (simp_all add: minus_mult_div_eq_mod)
  have X: "?X = AES_encrypt pf (key ?c1) (xor_bytes 16 (take 16 (drop (16 * (?q - 1)) P)) (iv ?c1))"
    using u w by (simp add: cts_X_def Let_def)
  have Y: "?Y = AES_encrypt pf (key ?c1) (xor_bytes 16 (drop (16 * ?q) P @ replicate (16 - ?r) 0) ?X)"
    using u w by (simp add: cts_Y_def)
  have fin: "take 16 (final ?c1) = ?Y" using u d2 Cq by simp
  have bu: "take ?r (buf ?c1) = take ?r ?X" using u d1 Cq lC by simp
  from dec_final_aes[OF ok c1(1,2,3,4) rr c1(5,6,7) P' X Y fin bu]
  obtain c' where c': "EVP_DecryptFinal_cts ?c1 =
      result Ret1 c' (take 16 (drop (16 * (?q - 1)) P) @ drop (16 * ?q) P) (16 + ?r)"
    "cipher c' = cipher ?c1" "key c' = key ?c1" "encrypt c' = encrypt ?c1"
    "length (buf c') = 32" "length (final c') = 32" "length (iv c') = 16"
    "length (oiv c') = length (oiv ?c1)"
    by blast
  have "aes_ctx pf klen k False c'"
    using c' c1 u w by (simp add: aes_ctx_def)
  then show ?thesis using u c'(1) Cq lC by auto
qed

subsection \<open>Encrypt and Decrypt in terms of their steps\<close>

lemma cipher_init: "cipher (EVP_CipherInit_ex ctx None ko ivo enc) = cipher ctx"
  by (cases "mode (cipher ctx)"; cases ko) (simp_all add: EVP_CipherInit_ex_def Let_def)

lemma cipher_set_padding: "cipher (EVP_CIPHER_CTX_set_padding c p) = cipher c"
  by (simp add: EVP_CIPHER_CTX_set_padding_def)

lemma Encrypt_cts_unfold:
  assumes "cipher (m_encryptCtx eng) = EVP_aes_cbc pf klen"
    and "16 \<le> length P" "length P mod 16 \<noteq> 0"
    and "c2 = EVP_CIPHER_CTX_set_padding
                (EVP_CipherInit_ex (m_encryptCtx eng) None None (Some (IV_of ivs)) True) False"
    and "r1 = EVP_EncryptUpdate_cts c2 P (length P)"
    and "r2 = EVP_EncryptFinal_cts (res_ctx r1)"
  shows "Encrypt eng P ivs =
     (eng\<lparr>m_encryptCtx := res_ctx r2\<rparr>,
      SetSize (write_at (write_at (PBYTEArray_new (length P + 16)) 0 (written r1)) (outl r1) (written r2))
        (outl r1 + outl r2),
      False)"
  using assms
  by (simp add: Encrypt_def Encrypt_steps_def Let_def EVP_CIPHER_CTX_block_size_def
      EVP_CIPHER_CTX_iv_length_def EVP_EncryptInit_ex_def IV_of_def cipher_init
      cipher_set_padding aes_fields)

lemma Encrypt_std_unfold:
  assumes "cipher (m_encryptCtx eng) = EVP_aes_cbc pf klen"
    and "length P < 16 \<or> length P mod 16 = 0"
    and "c2 = EVP_CIPHER_CTX_set_padding
                (EVP_CipherInit_ex (m_encryptCtx eng) None None (Some (IV_of ivs)) True) (length P < 16)"
    and "r1 = EVP_EncryptUpdate c2 (length P + 16) P (length P)"
    and "r2 = EVP_EncryptFinal_ex (res_ctx r1) 0"
  shows "Encrypt eng P ivs =
     (eng\<lparr>m_encryptCtx := res_ctx r2\<rparr>,
      SetSize (write_at (write_at (PBYTEArray_new (length P + 16)) 0 (written r1)) (outl r1) (written r2))
        (outl r1 + outl r2),
      length P < 16)"
  using assms
  by (auto simp add: Encrypt_def Encrypt_steps_def Let_def EVP_CIPHER_CTX_block_size_def
      EVP_CIPHER_CTX_iv_length_def EVP_EncryptInit_ex_def IV_of_def cipher_init
      cipher_set_padding aes_fields)

lemma Decrypt_cts_unfold:
  assumes "cipher (m_decryptCtx eng) = EVP_aes_cbc pf klen"
    and "\<not> flag" "length C mod 16 \<noteq> 0"
    and "c2 = EVP_CIPHER_CTX_set_padding
                (EVP_CipherInit_ex (m_decryptCtx eng) None None (Some (IV_of ivs)) False) flag"
    and "r1 = EVP_EncryptUpdate_cts c2 C (length C)"
    and "r2 = EVP_DecryptFinal_cts (res_ctx r1)"
  shows "Decrypt eng C ivs flag =
     (eng\<lparr>m_decryptCtx := res_ctx r2\<rparr>,
      SetSize (write_at (write_at (PBYTEArray_new (length C)) 0 (written r1)) (outl r1) (written r2))
        (outl r1 + outl r2))"
  using assms
  by (simp add: Decrypt_def Decrypt_steps_def Let_def EVP_CIPHER_CTX_block_size_def
      EVP_CIPHER_CTX_iv_length_def EVP_DecryptInit_ex_def IV_of_def cipher_init
      cipher_set_padding aes_fields EVP_DecryptUpdate_cts_def)

lemma Decrypt_std_unfold:
  assumes "cipher (m_decryptCtx eng) = EVP_aes_cbc pf klen"
    and "flag \<or> length C mod 16 = 0"
    and "c2 = EVP_CIPHER_CTX_set_padding
                (EVP_CipherInit_ex (m_decryptCtx eng) None None (Some (IV_of ivs)) False) flag"
    and "r1 = EVP_DecryptUpdate c2 (length C) C (length C)"
    and "r2 = EVP_DecryptFinal_relaxed (res_ctx r1)"
  shows "Decrypt eng C ivs flag =
     (eng\<lparr>m_decryptCtx := res_ctx r2\<rparr>,
      SetSize (write_at (write_at (PBYTEArray_new (length C)) 0 (written r1)) (outl r1) (written r2))
        (outl r1 + outl r2))"
  using assms
  by (auto simp add: Decrypt_def Decrypt_steps_def Let_def EVP_CIPHER_CTX_block_size_def
      EVP_CIPHER_CTX_iv_length_def EVP_DecryptInit_ex_def IV_of_def cipher_init
      cipher_set_padding aes_fields)

lemma keyed_enc_update:
  "keyed pf klen k eng \<Longrightarrow> aes_ctx pf klen k True c \<Longrightarrow> keyed pf klen k (eng\<lparr>m_encryptCtx := c\<rparr>)"
  by (simp add: keyed_def)

lemma keyed_dec_update:
  "keyed pf klen k eng \<Longrightarrow> aes_ctx pf klen k False c \<Longrightarrow> keyed pf klen k (eng\<lparr>m_decryptCtx := c\<rparr>)"
  by (simp add: keyed_def)

subsection \<open>What Encrypt returns\<close>

lemma keyed_ctxs:
  "keyed pf klen k eng \<Longrightarrow> aes_ctx pf klen k True (m_encryptCtx eng)"
  "keyed pf klen k eng \<Longrightarrow> aes_ctx pf klen k False (m_decryptCtx eng)"
  "keyed pf klen k eng \<Longrightarrow> cipher (m_encryptCtx eng) = EVP_aes_cbc pf klen"
  "keyed pf klen k eng \<Longrightarrow> cipher (m_decryptCtx eng) = EVP_aes_cbc pf klen"
  by (simp_all add: keyed_def aes_ctx_def)

lemma E_short:
  assumes ok: "block_ok pf" and kd: "keyed pf klen k eng" and sq: "seq_ok ivs"
    and L: "length P < 16"
  shows "\<exists>eng'. Encrypt eng P ivs =
            (eng', AES_encrypt pf k (xor_bytes 16 (pkcs_pad P) (IV_of ivs)), True)
          \<and> keyed pf klen k eng'"
proof -
  define c2 where "c2 = EVP_CIPHER_CTX_set_padding
      (EVP_CipherInit_ex (m_encryptCtx eng) None None (Some (IV_of ivs)) True) (length P < 16)"
  note i = init_aes[OF keyed_ctxs(1)[OF kd] IV_of_length[OF sq] c2_def]
  have a2: "aes_ctx pf klen k True c2" and f: "buf_len c2 = 0" "block_mask c2 = 15"
    and np: "\<not> no_padding c2" and iv2: "iv c2 = IV_of ivs"
    using i L by simp_all
  from enc_short_update[OF a2 f L, of "length P + 16"]
  obtain c3 where c3: "EVP_EncryptUpdate c2 (length P + 16) P (length P) = result Ret1 c3 [] 0"
    "aes_ctx pf klen k True c3" "iv c3 = iv c2" "buf_len c3 = length P"
    "take (length P) (buf c3) = P" "no_padding c3 = no_padding c2"
    by blast
  have np3: "\<not> no_padding c3" using c3 np by simp
  from enc_final_pad_aes[OF ok c3(2) np3 c3(4) L c3(5), of 0]
  obtain c4 where c4: "EVP_EncryptFinal_ex c3 0 =
      result Ret1 c4 (AES_encrypt pf k (xor_bytes 16 (pkcs_pad P) (iv c3))) 16"
    "aes_ctx pf klen k True c4"
    by blast
  let ?C = "AES_encrypt pf k (xor_bytes 16 (pkcs_pad P) (IV_of ivs))"
  have lp: "length (xor_bytes 16 (pkcs_pad P) (IV_of ivs)) = 16"
    using L IV_of_length[OF sq] by (simp add: xor_bytes_length pkcs_pad_def)
  have lC: "length ?C = 16" using block_okD[OF ok lp] by simp
  have as: "SetSize (write_at (write_at (PBYTEArray_new (length P + 16)) 0 []) 0 ?C) (0 + 16) = take 0 [] @ ?C"
    by (rule assemble) (simp_all add: lC)
  have "Encrypt eng P ivs = (eng\<lparr>m_encryptCtx := c4\<rparr>, ?C, True)"
    using Encrypt_std_unfold[OF keyed_ctxs(3)[OF kd] _ c2_def refl refl] L c3 c4 iv2 as
    by (simp add: result_def)
  then show ?thesis using keyed_enc_update[OF kd c4(2)] by blast
qed

lemma E_block:
  assumes ok: "block_ok pf" and kd: "keyed pf klen k eng" and sq: "seq_ok ivs"
    and L: "length P = 16 * n" "1 \<le> n"
  shows "\<exists>eng'. Encrypt eng P ivs = (eng', fst (cbc pf True k n (IV_of ivs) P), False)
          \<and> keyed pf klen k eng'"
proof -
  define c2 where "c2 = EVP_CIPHER_CTX_set_padding
      (EVP_CipherInit_ex (m_encryptCtx eng) None None (Some (IV_of ivs)) True) (length P < 16)"
  note i = init_aes[OF keyed_ctxs(1)[OF kd] IV_of_length[OF sq] c2_def]
  have nl: "\<not> length P < 16" using L by simp
  have a2: "aes_ctx pf klen k True c2" and f: "buf_len c2 = 0" "block_mask c2 = 15"
    and np: "no_padding c2" and iv2: "iv c2 = IV_of ivs"
    using i nl by simp_all
  from update_direct_aes[OF ok a2 f L, of "length P + 16"]
  obtain c3 where c3: "EVP_EncryptUpdate c2 (length P + 16) P (length P)
        = result Ret1 c3 (fst (cbc pf True k n (iv c2) P)) (16 * n)"
    "aes_ctx pf klen k True c3" "buf_len c3 = 0" "no_padding c3 = no_padding c2"
    by blast
  have bs: "block_size (cipher c3) \<noteq> 1" using c3(2) by (simp add: aes_ctx_def aes_fields)
  have np3: "no_padding c3" using c3 np by simp
  have fin: "EVP_EncryptFinal_ex c3 0 = result Ret1 c3 [] 0"
    using encrypt_final_nopad[OF bs np3 c3(3)] .
  let ?C = "fst (cbc pf True k n (IV_of ivs) P)"
  have lC: "length ?C = 16 * n"
    using cbc_lengths[OF ok IV_of_length[OF sq], of n P True k] L by simp
  have as: "SetSize (write_at (write_at (PBYTEArray_new (length P + 16)) 0 ?C) (16 * n) []) (16 * n + 0)
      = take (16 * n) ?C @ []"
    by (rule assemble) (simp_all add: lC L)
  have "Encrypt eng P ivs = (eng\<lparr>m_encryptCtx := c3\<rparr>, ?C, False)"
    using Encrypt_std_unfold[OF keyed_ctxs(3)[OF kd] _ c2_def refl refl] L c3 fin iv2 as lC
    by (simp add: result_def)
  then show ?thesis using keyed_enc_update[OF kd c3(2)] by blast
qed

lemma E_cts:
  assumes ok: "block_ok pf" and kd: "keyed pf klen k eng" and sq: "seq_ok ivs"
    and L: "16 < length P" "length P mod 16 \<noteq> 0"
  shows "\<exists>eng'. Encrypt eng P ivs = (eng', cts_ciphertext pf k (IV_of ivs) P, False)
          \<and> keyed pf klen k eng'"
proof -
  define c2 where "c2 = EVP_CIPHER_CTX_set_padding
      (EVP_CipherInit_ex (m_encryptCtx eng) None None (Some (IV_of ivs)) True) False"
  define r1 where "r1 = EVP_EncryptUpdate_cts c2 P (length P)"
  note i = init_aes[OF keyed_ctxs(1)[OF kd] IV_of_length[OF sq] c2_def]
  have a2: "aes_ctx pf klen k True c2" and f: "buf_len c2 = 0" "\<not> final_used c2" "block_mask c2 = 15"
    and iv2: "iv c2 = IV_of ivs"
    using i by simp_all
  note e = enc_cts_aes[OF ok a2 f L r1_def]
  let ?v = "IV_of ivs"
  let ?q = "length P div 16"
  let ?r = "length P mod 16"
  let ?w1 = "fst (cbc pf True k (?q - 1) ?v P)"
  let ?w2 = "cts_Y pf k ?v P @ take ?r (cts_X pf k ?v P)"
  from e obtain c' where c': "EVP_EncryptFinal_cts (res_ctx r1) = result Ret1 c' ?w2 (16 + ?r)"
    "aes_ctx pf klen k True c'"
    using iv2 by auto
  have r1: "written r1 = ?w1" "outl r1 = 16 * (?q - 1)" using e iv2 by simp_all
  note p = cts_parts[OF ok IV_of_length[OF sq] L, of k]
  have tot: "16 * (?q - 1) + (16 + ?r) = length P" using cts_arith(1)[OF L(1)] .
  have as: "SetSize (write_at (write_at (PBYTEArray_new (length P + 16)) 0 ?w1) (16 * (?q - 1)) ?w2)
        (16 * (?q - 1) + (16 + ?r)) = take (16 * (?q - 1)) ?w1 @ ?w2"
    by (rule assemble) (use p tot in simp_all)
  have L16: "16 \<le> length P" using L by simp
  have "Encrypt eng P ivs = (eng\<lparr>m_encryptCtx := c'\<rparr>, cts_ciphertext pf k ?v P, False)"
    using Encrypt_cts_unfold[OF keyed_ctxs(3)[OF kd] L16 L(2) c2_def r1_def refl] c' r1 as p
    by (simp add: result_def cts_ciphertext_def)
  then show ?thesis using keyed_enc_update[OF kd c'(2)] by blast
qed

subsection \<open>What Decrypt returns\<close>

lemma D_block:
  assumes ok: "block_ok pf" and kd: "keyed pf klen k eng" and sq: "seq_ok ivs"
    and M: "length M = 16 * n" "1 \<le> n"
    and C: "C = fst (cbc pf True k n (IV_of ivs) M)"
  shows "\<exists>eng'. Decrypt eng C ivs False = (eng', M) \<and> keyed pf klen k eng'"
proof -
  define c2 where "c2 = EVP_CIPHER_CTX_set_padding
      (EVP_CipherInit_ex (m_decryptCtx eng) None None (Some (IV_of ivs)) False) False"
  note i = init_aes[OF keyed_ctxs(2)[OF kd] IV_of_length[OF sq] c2_def]
  have a2: "aes_ctx pf klen k False c2" and f: "buf_len c2 = 0" "block_mask c2 = 15"
    and np: "no_padding c2" and iv2: "iv c2 = IV_of ivs"
    using i by simp_all
  have lC: "length C = 16 * n"
    using cbc_lengths[OF ok IV_of_length[OF sq], of n M True k] M C by simp
  have nz: "length C \<noteq> 0" using lC M by simp
  have ED: "\<And>b. length b = 16 \<Longrightarrow> length (AES_encrypt pf k b) = 16 \<and> AES_decrypt pf k (AES_encrypt pf k b) = b"
    using block_okD[OF ok] by simp
  have rt: "cbc pf False k n (IV_of ivs) C = (M, snd (cbc pf True k n (IV_of ivs) M))"
    using cbc_roundtrip[of "AES_encrypt pf k" "AES_decrypt pf k", OF ED IV_of_length[OF sq], of n M "[]"] M C
    by (simp add: cbc_def)
  from update_direct_aes[OF ok a2 f lC M(2), of "length C"]
  obtain c3 where c3: "EVP_EncryptUpdate c2 (length C) C (length C)
        = result Ret1 c3 (fst (cbc pf False k n (iv c2) C)) (16 * n)"
    "aes_ctx pf klen k False c3" "buf_len c3 = 0" "no_padding c3 = no_padding c2"
    by blast
  have u: "EVP_DecryptUpdate c2 (length C) C (length C) = result Ret1 c3 M (16 * n)"
    using decrypt_update_nopad[OF np nz] c3(1) rt iv2 by simp
  have np3: "no_padding c3" using c3 np by simp
  have fin: "EVP_DecryptFinal_relaxed c3 = result Ret1 c3 [] 0"
    using relaxed_nopad[OF np3 c3(3)] .
  have as: "SetSize (write_at (write_at (PBYTEArray_new (length C)) 0 M) (16 * n) []) (16 * n + 0)
      = take (16 * n) M @ []"
    by (rule assemble) (simp_all add: lC M)
  have "Decrypt eng C ivs False = (eng\<lparr>m_decryptCtx := c3\<rparr>, M)"
    using Decrypt_std_unfold[OF keyed_ctxs(4)[OF kd] _ c2_def refl refl] lC u fin as M
    by (simp add: result_def)
  then show ?thesis using keyed_dec_update[OF kd c3(2)] by blast
qed

lemma D_pad:
  assumes ok: "block_ok pf" and kd: "keyed pf klen k eng" and sq: "seq_ok ivs"
    and M: "length M = 16" and p: "p = unat (M ! 15)" "1 \<le> p" "p \<le> 16"
    and C: "C = AES_encrypt pf k (xor_bytes 16 M (IV_of ivs))"
  shows "\<exists>eng'. Decrypt eng C ivs True = (eng', take (16 - p) M) \<and> keyed pf klen k eng'"
proof -
  define c2 where "c2 = EVP_CIPHER_CTX_set_padding
      (EVP_CipherInit_ex (m_decryptCtx eng) None None (Some (IV_of ivs)) False) True"
  note i = init_aes[OF keyed_ctxs(2)[OF kd] IV_of_length[OF sq] c2_def]
  have a2: "aes_ctx pf klen k False c2"
    and f: "\<not> no_padding c2" "\<not> final_used c2" "buf_len c2 = 0" "block_mask c2 = 15"
    and iv2: "iv c2 = IV_of ivs"
    using i by simp_all
  have lx: "length (xor_bytes 16 M (IV_of ivs)) = 16"
    using M IV_of_length[OF sq] by (simp add: xor_bytes_length)
  have lC: "length C = 16" and dC: "AES_decrypt pf k C = xor_bytes 16 M (IV_of ivs)"
    using block_okD[OF ok lx, of k] C by simp_all
  have W: "M = xor_bytes 16 (AES_decrypt pf k C) (iv c2)"
    using M IV_of_length[OF sq] by (simp add: dC iv2 xor_bytes_cancel)
  from dec_hold_aes[OF ok a2 f lC W, of "length C"]
  obtain c3 where c3: "EVP_DecryptUpdate c2 (length C) C (length C) = result Ret1 c3 M 0"
    "aes_ctx pf klen k False c3" "\<not> no_padding c3" "buf_len c3 = 0" "final_used c3"
    "take 16 (final c3) = M"
    by blast
  have p3: "p = unat (take 16 (final c3) ! 15)" using p c3(6) by simp
  have fin: "EVP_DecryptFinal_relaxed c3 = result Ret1 c3 (take (16 - p) M) (16 - p)"
    using relaxed_strip[OF c3(2,3,4,5) p3 p(2,3)] c3(6) by simp
  have as: "SetSize (write_at (write_at (PBYTEArray_new (length C)) 0 M) 0 (take (16 - p) M)) (0 + (16 - p))
      = take 0 M @ take (16 - p) M"
    by (rule assemble) (use M lC in simp_all)
  have "Decrypt eng C ivs True = (eng\<lparr>m_decryptCtx := c3\<rparr>, take (16 - p) M)"
    using Decrypt_std_unfold[OF keyed_ctxs(4)[OF kd] _ c2_def refl refl] c3(1) fin as
    by (simp add: result_def)
  then show ?thesis using keyed_dec_update[OF kd c3(2)] by blast
qed

lemma D_cts:
  assumes ok: "block_ok pf" and kd: "keyed pf klen k eng" and sq: "seq_ok ivs"
    and L: "16 < length P" "length P mod 16 \<noteq> 0"
    and C: "C = cts_ciphertext pf k (IV_of ivs) P"
  shows "\<exists>eng'. Decrypt eng C ivs False = (eng', P) \<and> keyed pf klen k eng'"
proof -
  define c2 where "c2 = EVP_CIPHER_CTX_set_padding
      (EVP_CipherInit_ex (m_decryptCtx eng) None None (Some (IV_of ivs)) False) False"
  define r1 where "r1 = EVP_EncryptUpdate_cts c2 C (length C)"
  note i = init_aes[OF keyed_ctxs(2)[OF kd] IV_of_length[OF sq] c2_def]
  have a2: "aes_ctx pf klen k False c2" and f: "buf_len c2 = 0" "\<not> final_used c2" "block_mask c2 = 15"
    and iv2: "iv c2 = IV_of ivs"
    using i by simp_all
  have C2: "C = cts_ciphertext pf k (iv c2) P" using C iv2 by simp
  note d = dec_cts_aes[OF ok a2 f L C2 r1_def]
  let ?q = "length P div 16"
  let ?r = "length P mod 16"
  let ?w1 = "take (16 * (?q - 1)) P"
  let ?w2 = "take 16 (drop (16 * (?q - 1)) P) @ drop (16 * ?q) P"
  from d obtain c' where c': "EVP_DecryptFinal_cts (res_ctx r1) = result Ret1 c' ?w2 (16 + ?r)"
    "aes_ctx pf klen k False c'"
    by blast
  have r1: "written r1 = ?w1" "outl r1 = 16 * (?q - 1)" using d by simp_all
  note p = cts_parts[OF ok IV_of_length[OF sq] L, of k]
  have lC: "length C = length P" using p(5) C by simp
  have q1: "1 \<le> ?q" using L(1) by simp
  have tot: "16 * (?q - 1) + (16 + ?r) = length P" using cts_arith(1)[OF L(1)] .
  have le: "16 * (?q - 1) + 16 \<le> length P" using cts_arith(2)[OF L(1)] .
  have l2: "length ?w2 = 16 + ?r" using le by (simp add: minus_mult_div_eq_mod)
  have l1: "length ?w1 = 16 * (?q - 1)" using le by simp
  have as: "SetSize (write_at (write_at (PBYTEArray_new (length C)) 0 ?w1) (16 * (?q - 1)) ?w2)
        (16 * (?q - 1) + (16 + ?r)) = take (16 * (?q - 1)) ?w1 @ ?w2"
    by (rule assemble) (use l1 l2 lC tot in simp_all)
  have j: "?w1 @ ?w2 = P"
  proof -
    have "16 + 16 * (?q - 1) = 16 * ?q" using q1 by simp
    then have "drop (16 * ?q) P = drop 16 (drop (16 * (?q - 1)) P)"
      by (simp only: drop_drop)
    then have "take 16 (drop (16 * (?q - 1)) P) @ drop (16 * ?q) P = drop (16 * (?q - 1)) P"
      by (simp only: append_take_drop_id)
    then show ?thesis by (simp only: append_take_drop_id)
  qed
  have m: "length C mod 16 \<noteq> 0" using lC L by simp
  let ?r2 = "EVP_DecryptFinal_cts (res_ctx r1)"
  have un: "Decrypt eng C ivs False =
     (eng\<lparr>m_decryptCtx := res_ctx ?r2\<rparr>,
      SetSize (write_at (write_at (PBYTEArray_new (length C)) 0 (written r1)) (outl r1) (written ?r2))
        (outl r1 + outl ?r2))"
    by (rule Decrypt_cts_unfold[OF keyed_ctxs(4)[OF kd] _ m c2_def r1_def refl]) simp
  have f2: "res_ctx ?r2 = c'" "written ?r2 = ?w2" "outl ?r2 = 16 + ?r"
    by (simp_all only: c'(1) result_def evp_result.simps)
  have tk: "take (16 * (?q - 1)) ?w1 = ?w1" by simp
  have "Decrypt eng C ivs False = (eng\<lparr>m_decryptCtx := c'\<rparr>, P)"
    by (simp only: un f2 r1 as tk j)
  then show ?thesis using keyed_dec_update[OF kd c'(2)] by blast
qed

subsection \<open>Round trip\<close>

lemma block_ok_test_platform: "block_ok test_platform"
  by (simp add: block_ok_def test_platform_def comp_def)

lemma oid_distinct:
  "OID_AES128 \<noteq> OID_AES192" "OID_AES128 \<noteq> OID_AES256" "OID_AES192 \<noteq> OID_AES256"
  by (simp_all add: OID_AES128_def OID_AES192_def OID_AES256_def)

lemma init_key_aes:
  "aes_ctx pf klen (take klen k) enc
     (EVP_CipherInit_ex (EVP_CIPHER_CTX_init c0) (Some (EVP_aes_cbc pf klen)) (Some k) None enc)"
  by (simp add: aes_ctx_def EVP_CipherInit_ex_def EVP_CIPHER_CTX_init_def Let_def aes_fields
      memcpy_def EVP_MAX_IV_LENGTH_def EVP_MAX_BLOCK_LENGTH_def)

lemma SetKey_keyed:
  assumes "supported pf (m_algorithmOID eng)"
  shows "keyed pf (algorithm_key_len (m_algorithmOID eng))
           (take (algorithm_key_len (m_algorithmOID eng)) k) (SetKey pf eng k)"
  using assms oid_distinct
  by (auto simp add: supported_def algorithm_key_len_def SetKey_def keyed_def
      EVP_aes_128_cbc_def EVP_aes_192_cbc_def EVP_aes_256_cbc_def
      EVP_EncryptInit_ex_def EVP_DecryptInit_ex_def init_key_aes)

lemma pkcs_pad_facts:
  assumes "length P < 16"
  shows "length (pkcs_pad P) = 16" "unat (pkcs_pad P ! 15) = 16 - length P"
    "take (16 - (16 - length P)) (pkcs_pad P) = P"
proof -
  show "length (pkcs_pad P) = 16" using assms by (simp add: pkcs_pad_def)
  have "pkcs_pad P ! 15 = (of_nat (16 - length P) :: byte)"
    using assms by (simp add: pkcs_pad_def nth_append)
  moreover have "unat (of_nat (16 - length P) :: byte) = 16 - length P"
    by (simp add: unat_of_nat take_bit_nat_eq_self)
  ultimately show "unat (pkcs_pad P ! 15) = 16 - length P" by simp
  show "take (16 - (16 - length P)) (pkcs_pad P) = P"
    using assms by (simp add: pkcs_pad_def)
qed

lemma roundtrip_keyed:
  assumes ok: "block_ok pf" and kd: "keyed pf klen k eng" and kd2: "keyed pf klen k eng2"
    and sq: "seq_ok ivs"
  shows "\<exists>eng' C eng2'. Encrypt eng P ivs = (eng', C, length P < 16)
          \<and> length C = (if length P < 16 then 16 else length P)
          \<and> keyed pf klen k eng'
          \<and> Decrypt eng2 C ivs (length P < 16) = (eng2', P)
          \<and> keyed pf klen k eng2'"
proof -
  consider (short) "length P < 16" | (block) "16 \<le> length P" "length P mod 16 = 0"
    | (cts) "16 < length P" "length P mod 16 \<noteq> 0"
    by (cases "length P < 16"; cases "length P mod 16 = 0"; cases "length P = 16") auto
  then show ?thesis
  proof cases
    case short
    let ?C = "AES_encrypt pf k (xor_bytes 16 (pkcs_pad P) (IV_of ivs))"
    note pf = pkcs_pad_facts[OF short]
    from E_short[OF ok kd sq short] obtain eng' where
      e: "Encrypt eng P ivs = (eng', ?C, True)" "keyed pf klen k eng'" by blast
    have p: "16 - length P = unat (pkcs_pad P ! 15)" "1 \<le> 16 - length P" "16 - length P \<le> 16"
      using pf short by simp_all
    from D_pad[OF ok kd2 sq pf(1) p refl] obtain eng2' where
      d: "Decrypt eng2 ?C ivs True = (eng2', take (16 - (16 - length P)) (pkcs_pad P))"
        "keyed pf klen k eng2'" by blast
    have lx: "length (xor_bytes 16 (pkcs_pad P) (IV_of ivs)) = 16"
      using pf(1) IV_of_length[OF sq] by (simp add: xor_bytes_length)
    have lC: "length ?C = 16" using block_okD[OF ok lx] by simp
    show ?thesis using e d pf(3) lC short by simp
  next
    case block
    let ?n = "length P div 16"
    have L: "length P = 16 * ?n" "1 \<le> ?n" using block by auto
    let ?C = "fst (cbc pf True k ?n (IV_of ivs) P)"
    from E_block[OF ok kd sq L] obtain eng' where
      e: "Encrypt eng P ivs = (eng', ?C, False)" "keyed pf klen k eng'" by blast
    from D_block[OF ok kd2 sq L refl] obtain eng2' where
      d: "Decrypt eng2 ?C ivs False = (eng2', P)" "keyed pf klen k eng2'" by blast
    have lC: "length ?C = length P"
      using cbc_lengths[OF ok IV_of_length[OF sq], of ?n P True k] L by simp
    show ?thesis using e d lC block by simp
  next
    case cts
    let ?C = "cts_ciphertext pf k (IV_of ivs) P"
    from E_cts[OF ok kd sq cts] obtain eng' where
      e: "Encrypt eng P ivs = (eng', ?C, False)" "keyed pf klen k eng'" by blast
    from D_cts[OF ok kd2 sq cts refl] obtain eng2' where
      d: "Decrypt eng2 ?C ivs False = (eng2', P)" "keyed pf klen k eng2'" by blast
    have lC: "length ?C = length P"
      using cts_parts(5)[OF ok IV_of_length[OF sq] cts] .
    show ?thesis using e d lC cts by simp
  qed
qed

text \<open>
  Claim C1. For every supported algorithm, every key of the algorithm's key length, every
  six-byte sequence value and every plaintext \<open>P\<close>, decrypting what \<open>Encrypt\<close> returns,
  with the same sequence value and the flag \<open>Encrypt\<close> reported, gives \<open>P\<close> back. The
  theorem holds for every length of \<open>P\<close>, so for the lengths 1, 15, 16, 17, 31, 32, 33
  and 1024 of the claim. The AES block transform is a parameter: decryption of a block
  undoes its encryption, and both keep the length of a block.
\<close>

theorem Encrypt_Decrypt_roundtrip:
  assumes "block_ok pf" and "supported pf oid" and "length k = algorithm_key_len oid"
    and "length s = IV_SEQUENCE_LEN"
    and "eng = H235CryptoEngine_new_key pf oid k ectx dctx"
  shows "case Encrypt eng P (Some s) of
           (eng', C, flag) \<Rightarrow> snd (Decrypt eng' C (Some s) flag) = P"
proof -
  have o: "m_algorithmOID (H235CryptoEngine_new oid ectx dctx) = oid"
    by (simp add: H235CryptoEngine_new_def)
  have kd: "keyed pf (algorithm_key_len oid) (take (algorithm_key_len oid) k) eng"
    using SetKey_keyed[of pf "H235CryptoEngine_new oid ectx dctx" k] assms(2,5) o
    by (simp add: H235CryptoEngine_new_key_def)
  have sq: "seq_ok (Some s)" using assms(4) by (simp add: seq_ok_def)
  from roundtrip_keyed[OF assms(1) kd _ sq, of _ P]
  obtain eng' C where e: "Encrypt eng P (Some s) = (eng', C, length P < 16)"
    "keyed pf (algorithm_key_len oid) (take (algorithm_key_len oid) k) eng'"
    using kd by blast
  from roundtrip_keyed[OF assms(1) kd e(2) sq, of P] e(1)
  show ?thesis by auto
qed

theorem Encrypt_Decrypt_roundtrip_witness:
  "block_ok test_platform \<and> supported test_platform OID_AES128
   \<and> length (replicate 16 (1 :: byte)) = algorithm_key_len OID_AES128
   \<and> length [0, 1, 0xAA, 0xBB, 0xCC, 0xDD :: byte] = IV_SEQUENCE_LEN
   \<and> (case Encrypt
              (H235CryptoEngine_new_key test_platform OID_AES128 (replicate 16 1)
                 (blank_ctx (copy_cipher 16 EVP_CIPH_ECB_MODE))
                 (blank_ctx (copy_cipher 16 EVP_CIPH_ECB_MODE)))
              (replicate 20 0x41) (Some [0, 1, 0xAA, 0xBB, 0xCC, 0xDD]) of
         (eng', C, flag) \<Rightarrow>
           snd (Decrypt eng' C (Some [0, 1, 0xAA, 0xBB, 0xCC, 0xDD]) flag) = replicate 20 0x41)"
proof -
  have h: "block_ok test_platform" "supported test_platform OID_AES128"
    "length (replicate 16 (1 :: byte)) = algorithm_key_len OID_AES128"
    "length [0, 1, 0xAA, 0xBB, 0xCC, 0xDD :: byte] = IV_SEQUENCE_LEN"
    by (simp_all add: block_ok_test_platform supported_def algorithm_key_len_def IV_SEQUENCE_LEN_def)
  show ?thesis
    using h Encrypt_Decrypt_roundtrip[OF h refl,
        where ectx = "blank_ctx (copy_cipher 16 EVP_CIPH_ECB_MODE)"
          and dctx = "blank_ctx (copy_cipher 16 EVP_CIPH_ECB_MODE)"
          and P = "replicate 20 0x41"]
    by blast
qed

subsection \<open>Plaintexts shorter than a block\<close>

lemma cipher_init_some:
  "cipher (EVP_CipherInit_ex ctx (Some c) ko ivo enc) = c"
  by (cases "mode c"; cases ko) (simp_all add: EVP_CipherInit_ex_def Let_def)

text \<open>
  Claim C5. For a plaintext shorter than the block size (16 for the three algorithms)
  \<open>Encrypt\<close> reports \<open>rtpPadding\<close> true and returns exactly one block, and \<open>Decrypt\<close> of
  that block with \<open>rtpPadding\<close> true returns the plaintext.
\<close>

theorem short_plaintext_rtp_padding:
  assumes "block_ok pf" and "supported pf oid" and "length k = algorithm_key_len oid"
    and "seq_ok ivs"
    and "eng = H235CryptoEngine_new_key pf oid k ectx dctx"
    and "length P < EVP_CIPHER_CTX_block_size (m_encryptCtx eng)"
  shows "EVP_CIPHER_CTX_block_size (m_encryptCtx eng) = 16
       \<and> (case Encrypt eng P ivs of
             (eng', C, flag) \<Rightarrow>
               flag \<and> length C = EVP_CIPHER_CTX_block_size (m_encryptCtx eng)
               \<and> snd (Decrypt eng' C ivs True) = P)"
proof -
  have o: "m_algorithmOID (H235CryptoEngine_new oid ectx dctx) = oid"
    by (simp add: H235CryptoEngine_new_def)
  have kd: "keyed pf (algorithm_key_len oid) (take (algorithm_key_len oid) k) eng"
    using SetKey_keyed[of pf "H235CryptoEngine_new oid ectx dctx" k] assms(2,5) o
    by (simp add: H235CryptoEngine_new_key_def)
  have bs: "EVP_CIPHER_CTX_block_size (m_encryptCtx eng) = 16"
    using keyed_ctxs(3)[OF kd] by (simp add: EVP_CIPHER_CTX_block_size_def aes_fields)
  have L: "length P < 16" using assms(6) bs by simp
  from roundtrip_keyed[OF assms(1) kd _ assms(4), of _ P]
  obtain eng' C where e: "Encrypt eng P ivs = (eng', C, length P < 16)"
    "keyed pf (algorithm_key_len oid) (take (algorithm_key_len oid) k) eng'"
    using kd by blast
  from roundtrip_keyed[OF assms(1) kd e(2) assms(4), of P] e(1) L bs
  show ?thesis by auto
qed

theorem short_plaintext_rtp_padding_witness:
  "block_ok test_platform \<and> supported test_platform OID_AES192
   \<and> length (replicate 24 (7 :: byte)) = algorithm_key_len OID_AES192
   \<and> seq_ok None
   \<and> length [1, 2, 3 :: byte]
       < EVP_CIPHER_CTX_block_size
           (m_encryptCtx (H235CryptoEngine_new_key test_platform OID_AES192 (replicate 24 7)
              (blank_ctx (copy_cipher 16 EVP_CIPH_ECB_MODE))
              (blank_ctx (copy_cipher 16 EVP_CIPH_ECB_MODE))))
   \<and> (case Encrypt
              (H235CryptoEngine_new_key test_platform OID_AES192 (replicate 24 7)
                 (blank_ctx (copy_cipher 16 EVP_CIPH_ECB_MODE))
                 (blank_ctx (copy_cipher 16 EVP_CIPH_ECB_MODE)))
              [1, 2, 3] None of
         (eng', C, flag) \<Rightarrow>
           flag \<and> length C = 16 \<and> snd (Decrypt eng' C None True) = [1, 2, 3])"
proof -
  let ?eng = "H235CryptoEngine_new_key test_platform OID_AES192 (replicate 24 7)
      (blank_ctx (copy_cipher 16 EVP_CIPH_ECB_MODE)) (blank_ctx (copy_cipher 16 EVP_CIPH_ECB_MODE))"
  have h: "block_ok test_platform" "supported test_platform OID_AES192"
    "length (replicate 24 (7 :: byte)) = algorithm_key_len OID_AES192" "seq_ok None"
    using oid_distinct
    by (simp_all add: block_ok_test_platform supported_def algorithm_key_len_def seq_ok_def)
  have bs: "EVP_CIPHER_CTX_block_size (m_encryptCtx ?eng) = 16"
    using oid_distinct
    by (simp add: H235CryptoEngine_new_key_def H235CryptoEngine_new_def SetKey_def
        EVP_aes_192_cbc_def EVP_EncryptInit_ex_def EVP_CIPHER_CTX_block_size_def cipher_init_some aes_fields)
  have l: "length [1, 2, 3 :: byte] < EVP_CIPHER_CTX_block_size (m_encryptCtx ?eng)"
    using bs by simp
  show ?thesis
    using h l short_plaintext_rtp_padding[OF h refl l] by auto
qed

subsection \<open>Ciphertext stealing keeps the length\<close>

lemma init_generic:
  assumes "c = EVP_CIPHER_CTX_set_padding (EVP_CipherInit_ex ctx None None ivo enc) pad"
  shows "cipher c = cipher ctx \<and> buf c = buf ctx \<and> final c = final ctx \<and> buf_len c = 0
       \<and> \<not> final_used c \<and> block_mask c = block_size (cipher ctx) - 1 \<and> no_padding c = (\<not> pad)"
  using assms
  by (cases "mode (cipher ctx)"; cases ivo)
     (simp_all add: EVP_CIPHER_CTX_set_padding_def EVP_CipherInit_ex_def Let_def)

lemma init_iv_length:
  assumes "c = EVP_CIPHER_CTX_set_padding (EVP_CipherInit_ex ctx None None (Some v) enc) pad"
    and "length (iv ctx) = 16" "length (oiv ctx) = 16"
    and "iv_len (cipher ctx) \<le> 16" "iv_len (cipher ctx) \<le> length v"
  shows "length (iv c) = 16"
  using assms
  by (cases "mode (cipher ctx)")
     (simp_all add: EVP_CIPHER_CTX_set_padding_def EVP_CipherInit_ex_def Let_def memcpy_def)

lemma cipher_blocksD:
  assumes "cipher_blocks c" and "length v = 16" and "block_size c dvd length x"
  shows "\<exists>out v'. do_cipher_fn c enc k v x = Some (out, v') \<and> length out = length x
           \<and> length v' = 16"
  using assms unfolding cipher_blocks_def EVP_MAX_IV_LENGTH_def by blast

lemma ecb_blocks_length:
  "(\<And>b. length b = 16 \<Longrightarrow> length (E b) = 16) \<Longrightarrow> 16 * n \<le> length inp \<Longrightarrow>
   length (ecb_blocks E n inp) = 16 * n"
proof (induction n arbitrary: inp)
  case 0
  then show ?case by simp
next
  case (Suc n)
  have l: "length (E (take 16 inp)) = 16" using Suc.prems by simp
  show ?case
    using Suc.IH[OF Suc.prems(1), of "drop 16 inp"] Suc.prems(2) l by simp
qed

lemma aes_cbc_blocks:
  assumes "block_ok pf"
  shows "cipher_blocks (EVP_aes_cbc pf klen)"
  unfolding cipher_blocks_def
proof (intro allI impI, elim conjE)
  fix enc k and v x :: bytes
  assume lv: "length v = EVP_MAX_IV_LENGTH"
    and d: "block_size (EVP_aes_cbc pf klen) dvd length x"
  let ?n = "length x div 16"
  have v16: "length v = 16" using lv by (simp add: EVP_MAX_IV_LENGTH_def)
  have n: "16 * ?n = length x" using d by (simp add: aes_fields)
  have n': "16 * ?n \<le> length x" using n by simp
  have E: "\<And>b. length b = 16 \<Longrightarrow> length (AES_encrypt pf k b) = 16"
    and D: "\<And>b. length b = 16 \<Longrightarrow> length (AES_decrypt pf k b) = 16"
    using assms by (simp_all add: block_ok_def)
  let ?p = "cbc pf enc k ?n v x"
  have "length (fst ?p) = length x \<and> length (snd ?p) = EVP_MAX_IV_LENGTH"
    using cbc_enc_length[OF E v16 n'] cbc_dec_length[OF D v16 n'] n
    by (simp add: cbc_def EVP_MAX_IV_LENGTH_def)
  then show "\<exists>out v'. do_cipher_fn (EVP_aes_cbc pf klen) enc k v x = Some (out, v')
      \<and> length out = length x \<and> length v' = EVP_MAX_IV_LENGTH"
    by (intro exI[of _ "fst ?p"] exI[of _ "snd ?p"]) (simp add: aes_fn)
qed

lemma aes_ecb_blocks:
  assumes "block_ok pf"
  shows "cipher_blocks (EVP_aes_128_ecb pf)"
  unfolding cipher_blocks_def
proof (intro allI impI, elim conjE)
  fix enc k and v x :: bytes
  assume lv: "length v = EVP_MAX_IV_LENGTH"
    and d: "block_size (EVP_aes_128_ecb pf) dvd length x"
  let ?n = "length x div 16"
  let ?E = "if enc then AES_encrypt pf k else AES_decrypt pf k"
  have n: "16 * ?n = length x" using d by (simp add: EVP_aes_128_ecb_def)
  have n': "16 * ?n \<le> length x" using n by simp
  have E: "\<And>b. length b = 16 \<Longrightarrow> length (?E b) = 16"
    using assms by (simp add: block_ok_def)
  have "length (ecb_blocks ?E ?n x) = length x"
    using ecb_blocks_length[OF E n'] n by simp
  then show "\<exists>out v'. do_cipher_fn (EVP_aes_128_ecb pf) enc k v x = Some (out, v')
      \<and> length out = length x \<and> length v' = EVP_MAX_IV_LENGTH"
    using lv
    by (intro exI[of _ "ecb_blocks ?E ?n x"] exI[of _ v])
       (simp add: EVP_aes_128_ecb_def aes_ecb_cipher_def)
qed

lemma update_cts_len:
  assumes tot: "cipher_blocks (cipher c)"
    and f: "buf_len c = 0" "\<not> final_used c" "block_mask c = bs - 1"
    and bs: "bs = block_size (cipher c)" "bs = 2 ^ e" "bs \<le> 32"
    and w: "length (buf c) = 32" "length (final c) = 32"
    and ivl: "length (iv c) = 16"
    and L: "bs < length P" "length P mod bs \<noteq> 0"
    and res: "res = EVP_EncryptUpdate_cts c P (length P)"
  shows "ret res = Ret1 \<and> length (written res) = outl res
       \<and> outl res + bs + length P mod bs = length P
       \<and> final_used (res_ctx res) \<and> buf_len (res_ctx res) = length P mod bs
       \<and> cipher (res_ctx res) = cipher c
       \<and> length (buf (res_ctx res)) = 32 \<and> length (final (res_ctx res)) = 32
       \<and> length (iv (res_ctx res)) = 16"
proof -
  let ?L = "length P"
  let ?r = "?L mod bs"
  have bpos: "0 < bs" using bs(2) by simp
  have m: "(?L - bs) mod bs = ?r" using L(1) by (simp add: le_mod_geq)
  show ?thesis
  proof (cases "?L - bs \<le> bs")
    case True
    have "?L - bs \<noteq> bs" using m L(2) by auto
    then have lt: "?L - bs < bs" using True by simp
    then have r: "?r = ?L - bs" using m by simp
    have e: "res = result Ret1
       (c\<lparr>buf := memcpy (memcpy (buf c) 0 P bs) 0 (drop bs P) (?L - bs),
           buf_len := ?L - bs,
           final := memcpy (final c) 0 (memcpy (buf c) 0 P bs) bs,
           final_used := True\<rparr>) [] 0"
      unfolding res using update_cts_short[OF f(1,2) bs(1) L(1) True] .
    show ?thesis
      using e r lt L(1) w bs(3) ivl by (simp add: result_def memcpy_def)
  next
    case False
    then have lg: "bs < ?L - bs" by simp
    have lo: "?r = (?L - bs) AND block_mask c"
    proof -
      have "(?L - bs) AND (2 ^ e - 1) = (?L - bs) mod 2 ^ e" by (rule and_pow2_mod)
      then show ?thesis using m f(3) bs(2) by simp
    qed
    define n where "n = ?L - bs - (bs + ?r)"
    have m2: "(?L - bs - bs) mod bs = ?r" using lg m by (simp add: le_mod_geq)
    have rle: "?r \<le> ?L - bs - bs" using m2 mod_less_eq_dividend[of "?L - bs - bs" bs] by simp
    have nle: "n \<le> ?L - bs" "bs + n + bs + ?r = ?L" "n + bs + bs + ?r = ?L"
      using rle lg n_def by simp_all
    have "bs dvd (?L - bs - bs) - (?L - bs - bs) mod bs" by (rule dvd_minus_mod)
    then have dn: "bs dvd n" using m2 n_def by (simp add: algebra_simps)
    have l1: "length (take bs (memcpy (buf c) 0 P bs)) = bs"
      using w bs(3) L(1) by (simp add: memcpy_def)
    have d1: "block_size (cipher c) dvd length (take bs (memcpy (buf c) 0 P bs))"
      unfolding l1 using bs(1) by simp
    have "\<exists>out v'. do_cipher_fn (cipher c) (encrypt c) (key c) (iv c)
          (take bs (memcpy (buf c) 0 P bs)) = Some (out, v') \<and> length out = bs \<and> length v' = 16"
      using cipher_blocksD[OF tot ivl d1, of "encrypt c" "key c"] l1 by simp
    then obtain out1 v1 where h1:
      "do_cipher_fn (cipher c) (encrypt c) (key c) (iv c) (take bs (memcpy (buf c) 0 P bs)) = Some (out1, v1)"
      "length out1 = bs" "length v1 = 16"
      by blast
    have l2: "length (take n (drop bs P)) = n" using nle by simp
    have d2: "block_size (cipher c) dvd length (take n (drop bs P))"
      unfolding l2 using bs(1) dn by simp
    have "\<exists>out v'. do_cipher_fn (cipher c) (encrypt c) (key c) v1 (take n (drop bs P))
          = Some (out, v') \<and> length out = n \<and> length v' = 16"
      using cipher_blocksD[OF tot h1(3) d2, of "encrypt c" "key c"] l2 by simp
    then obtain out2 v2 where h2:
      "do_cipher_fn (cipher c) (encrypt c) (key c) v1 (take n (drop bs P)) = Some (out2, v2)"
      "length out2 = n" "length v2 = 16"
      by blast
    have e: "res = result Ret1
       (c\<lparr>iv := v2,
           buf := memcpy (memcpy (buf c) 0 P bs) 0 (drop (n + bs) (drop bs P)) ?r,
           buf_len := ?r,
           final := memcpy (final c) 0 (drop n (drop bs P)) bs,
           final_used := True\<rparr>) (out1 @ out2) (bs + n)"
      unfolding res
      using update_cts_long[OF f(1,2) bs(1) lg lo L(2) n_def h1(1) h2(1)] .
    have rl: "?r < bs" using bpos by simp
    show ?thesis
      using e h1(2) h2(2,3) nle w bs(3) L(1) rl by (simp add: result_def memcpy_def)
  qed
qed

lemma final_cts_len:
  assumes tot: "cipher_blocks (cipher c)"
    and md: "mode (cipher c) = EVP_CIPH_ECB_MODE \<or> mode (cipher c) = EVP_CIPH_CBC_MODE"
    and fu: "final_used c" and bl: "buf_len c = l" "0 < l" "l < bs"
    and bs: "bs = block_size (cipher c)" "bs \<le> 32"
    and w: "length (buf c) = 32" "length (final c) = 32"
    and ivl: "length (iv c) = 16"
  shows "ret (EVP_EncryptFinal_cts c) = Ret1 \<and> outl (EVP_EncryptFinal_cts c) = bs + l
       \<and> length (written (EVP_EncryptFinal_cts c)) = bs + l"
proof -
  have lf: "length (take bs (final c)) = bs" using w bs by simp
  have df: "block_size (cipher c) dvd length (take bs (final c))"
    unfolding lf using bs(1) by simp
  have "\<exists>out v'. do_cipher_fn (cipher c) (encrypt c) (key c) (iv c) (take bs (final c))
        = Some (out, v') \<and> length out = bs \<and> length v' = 16"
    using cipher_blocksD[OF tot ivl df, of "encrypt c" "key c"] lf by simp
  then obtain tmp v1 where h1:
    "do_cipher_fn (cipher c) (encrypt c) (key c) (iv c) (take bs (final c)) = Some (tmp, v1)"
    "length tmp = bs" "length v1 = 16"
    by blast
  have nz: "l \<noteq> 0" using bl by simp
  from md show ?thesis
  proof
    assume ecb: "mode (cipher c) = EVP_CIPH_ECB_MODE"
    let ?b = "memcpy (buf c) l (drop l tmp) (bs - l)"
    have lb: "length (take bs ?b) = bs" using w bs bl h1(2) by (simp add: memcpy_def)
    have db: "block_size (cipher c) dvd length (take bs ?b)"
      unfolding lb using bs(1) by simp
    have "\<exists>out v'. do_cipher_fn (cipher c) (encrypt c) (key c) v1 (take bs ?b)
          = Some (out, v') \<and> length out = bs \<and> length v' = 16"
      using cipher_blocksD[OF tot h1(3) db, of "encrypt c" "key c"] lb by simp
    then obtain out v2 where h2:
      "do_cipher_fn (cipher c) (encrypt c) (key c) v1 (take bs ?b) = Some (out, v2)" "length out = bs"
      by blast
    show ?thesis
      using enc_final_ecb[OF ecb fu bl(1) nz bs(1) h1(1) h2(1)] h1(2) h2(2) bl
      by (simp add: result_def)
  next
    assume cbc: "mode (cipher c) = EVP_CIPH_CBC_MODE"
    let ?b = "memset (buf c) l 0 (bs - l)"
    have lb: "length (take bs ?b) = bs" using w bs bl by (simp add: memset_def)
    have db: "block_size (cipher c) dvd length (take bs ?b)"
      unfolding lb using bs(1) by simp
    have "\<exists>out v'. do_cipher_fn (cipher c) (encrypt c) (key c) v1 (take bs ?b)
          = Some (out, v') \<and> length out = bs \<and> length v' = 16"
      using cipher_blocksD[OF tot h1(3) db, of "encrypt c" "key c"] lb by simp
    then obtain out v2 where h2:
      "do_cipher_fn (cipher c) (encrypt c) (key c) v1 (take bs ?b) = Some (out, v2)" "length out = bs"
      by blast
    show ?thesis
      using enc_final_cbc[OF cbc fu bl(1) nz bs(1) h1(1) h2(1)] h1(2) h2(2) bl
      by (simp add: result_def)
  qed
qed

lemma Encrypt_steps_cts_generic:
  assumes "block_size (cipher (m_encryptCtx eng)) \<le> length P"
    and "length P mod block_size (cipher (m_encryptCtx eng)) \<noteq> 0"
    and "c2 = EVP_CIPHER_CTX_set_padding
                (EVP_CipherInit_ex (m_encryptCtx eng) None None
                   (Some (SetIV (replicate EVP_MAX_IV_LENGTH 0) ivs (iv_len (cipher (m_encryptCtx eng))))) True)
                False"
    and "r1 = EVP_EncryptUpdate_cts c2 P (length P)"
    and "r2 = EVP_EncryptFinal_cts (res_ctx r1)"
  shows "Encrypt_steps eng P ivs = (False, r1, r2)"
  using assms
  by (simp add: Encrypt_steps_def Let_def EVP_CIPHER_CTX_block_size_def
      EVP_CIPHER_CTX_iv_length_def EVP_EncryptInit_ex_def cipher_init cipher_set_padding)

lemma Encrypt_from_steps:
  "Encrypt_steps eng P ivs = (flag, r1, r2) \<Longrightarrow>
   Encrypt eng P ivs =
     (eng\<lparr>m_encryptCtx := res_ctx r2\<rparr>,
      SetSize (write_at (write_at
          (PBYTEArray_new (length P + block_size (cipher (m_encryptCtx eng)))) 0 (written r1))
          (outl r1) (written r2)) (outl r1 + outl r2),
      flag)"
  by (simp add: Encrypt_def Let_def EVP_CIPHER_CTX_block_size_def)

text \<open>
  Claim C3. For a plaintext of length \<open>L \<ge> block_size\<close> with \<open>L mod block_size \<noteq> 0\<close>,
  in ECB and in CBC mode, \<open>Encrypt\<close> takes the ciphertext-stealing path, both steps
  return 1, and the ciphertext is the bytes they wrote: exactly \<open>L\<close> of them. The cipher
  is any one whose \<open>do_cipher\<close> succeeds on a whole number of blocks and gives as many
  bytes as it is given (\<open>cipher_blocks\<close>): the steps never pass it anything else. AES in CBC
  mode, the cipher of every engine \<open>SetKey\<close> has keyed, is such a cipher. The block size is
  a power of two, the arrays of the context have the sizes \<open>EVP_MAX_BLOCK_LENGTH\<close> and
  \<open>EVP_MAX_IV_LENGTH\<close> of their declarations, and the sequence value is absent or six bytes.
\<close>

theorem cts_keeps_length:
  assumes "cipher_blocks (cipher (m_encryptCtx eng))"
    and "mode (cipher (m_encryptCtx eng)) = EVP_CIPH_ECB_MODE
         \<or> mode (cipher (m_encryptCtx eng)) = EVP_CIPH_CBC_MODE"
    and "block_size (cipher (m_encryptCtx eng)) = 2 ^ e"
    and "block_size (cipher (m_encryptCtx eng)) \<le> EVP_MAX_BLOCK_LENGTH"
    and "iv_len (cipher (m_encryptCtx eng)) \<le> EVP_MAX_IV_LENGTH"
    and "length (buf (m_encryptCtx eng)) = EVP_MAX_BLOCK_LENGTH"
    and "length (final (m_encryptCtx eng)) = EVP_MAX_BLOCK_LENGTH"
    and "length (iv (m_encryptCtx eng)) = EVP_MAX_IV_LENGTH"
    and "length (oiv (m_encryptCtx eng)) = EVP_MAX_IV_LENGTH"
    and "seq_ok ivs"
    and "block_size (cipher (m_encryptCtx eng)) \<le> length P"
    and "length P mod block_size (cipher (m_encryptCtx eng)) \<noteq> 0"
  shows "(case Encrypt_steps eng P ivs of
            (flag, r1, r2) \<Rightarrow>
              \<not> flag \<and> ret r1 = Ret1 \<and> ret r2 = Ret1
              \<and> fst (snd (Encrypt eng P ivs)) = written r1 @ written r2)
       \<and> length (fst (snd (Encrypt eng P ivs))) = length P"
proof -
  let ?c0 = "m_encryptCtx eng"
  let ?bs = "block_size (cipher ?c0)"
  let ?v = "SetIV (replicate EVP_MAX_IV_LENGTH 0) ivs (iv_len (cipher ?c0))"
  define c2 where "c2 = EVP_CIPHER_CTX_set_padding
      (EVP_CipherInit_ex ?c0 None None
         (Some (SetIV (replicate EVP_MAX_IV_LENGTH 0) ivs (iv_len (cipher ?c0)))) True) False"
  define r1 where "r1 = EVP_EncryptUpdate_cts c2 P (length P)"
  define r2 where "r2 = EVP_EncryptFinal_cts (res_ctx r1)"
  note i = init_generic[OF c2_def]
  have il: "iv_len (cipher ?c0) \<le> 16" using assms(5) by (simp add: EVP_MAX_IV_LENGTH_def)
  have lv: "length ?v = 16"
    using SetIV_length[OF assms(10), of "iv_len (cipher ?c0)" "replicate EVP_MAX_IV_LENGTH 0"] il
    by (simp add: EVP_MAX_IV_LENGTH_def)
  have ivl: "length (iv c2) = 16"
    by (rule init_iv_length[OF c2_def]) (use assms(8,9) il lv in \<open>simp_all add: EVP_MAX_IV_LENGTH_def\<close>)
  have bs2: "?bs = block_size (cipher c2)" using i by simp
  have tot2: "cipher_blocks (cipher c2)" using i assms(1) by simp
  have f: "buf_len c2 = 0" "\<not> final_used c2" "block_mask c2 = ?bs - 1" using i by simp_all
  have b32: "?bs \<le> 32" using assms(4) by (simp add: EVP_MAX_BLOCK_LENGTH_def)
  have w: "length (buf c2) = 32" "length (final c2) = 32"
    using i assms(6,7) by (simp_all add: EVP_MAX_BLOCK_LENGTH_def)
  have "length P \<noteq> ?bs" using assms(12) by auto
  then have L: "?bs < length P" using assms(11) by simp
  note u = update_cts_len[OF tot2 f bs2 assms(3) b32 w ivl L assms(12) r1_def]
  let ?c3 = "res_ctx r1"
  let ?r = "length P mod ?bs"
  have bpos: "0 < ?bs" using assms(3) by simp
  have tot3: "cipher_blocks (cipher ?c3)" and md3: "mode (cipher ?c3) = EVP_CIPH_ECB_MODE
         \<or> mode (cipher ?c3) = EVP_CIPH_CBC_MODE" and bs3: "?bs = block_size (cipher ?c3)"
    using u i assms(1,2) by simp_all
  have fu: "final_used ?c3" and bl: "buf_len ?c3 = ?r" "0 < ?r" "?r < ?bs"
    and w3: "length (buf ?c3) = 32" "length (final ?c3) = 32"
    and ivl3: "length (iv ?c3) = 16"
    using u assms(12) bpos by simp_all
  note v = final_cts_len[OF tot3 md3 fu bl bs3 b32 w3 ivl3]
  have st: "Encrypt_steps eng P ivs = (False, r1, r2)"
    using Encrypt_steps_cts_generic[OF assms(11,12) c2_def r1_def r2_def] .
  have tl: "outl r1 + outl r2 = length P" using u v r2_def by simp
  have as: "SetSize (write_at (write_at (PBYTEArray_new (length P + ?bs)) 0 (written r1)) (outl r1) (written r2))
        (outl r1 + outl r2) = take (outl r1) (written r1) @ written r2"
    by (rule assemble) (use u v r2_def tl in simp_all)
  have en: "fst (snd (Encrypt eng P ivs)) = written r1 @ written r2"
    using Encrypt_from_steps[OF st] as u by simp
  have "length (written r1 @ written r2) = length P" using u v r2_def tl by simp
  then show ?thesis using st en u v r2_def by simp
qed

lemma cbc_engine_ctx:
  "cipher (m_encryptCtx cbc_engine) = EVP_aes_cbc test_platform 16"
  "length (buf (m_encryptCtx cbc_engine)) = 32" "length (final (m_encryptCtx cbc_engine)) = 32"
  "length (iv (m_encryptCtx cbc_engine)) = 16" "length (oiv (m_encryptCtx cbc_engine)) = 16"
proof -
  have "supported test_platform
      (m_algorithmOID (H235CryptoEngine_new OID_AES128
         (blank_ctx (copy_cipher 16 EVP_CIPH_OFB_MODE)) (blank_ctx (copy_cipher 16 EVP_CIPH_OFB_MODE))))"
    by (simp add: supported_def H235CryptoEngine_new_def)
  from SetKey_keyed[OF this, of "replicate 16 1"]
  have "aes_ctx test_platform 16 (replicate 16 1) True (m_encryptCtx cbc_engine)"
    by (simp add: cbc_engine_def H235CryptoEngine_new_key_def keyed_def algorithm_key_len_def
        H235CryptoEngine_new_def)
  then show "cipher (m_encryptCtx cbc_engine) = EVP_aes_cbc test_platform 16"
    "length (buf (m_encryptCtx cbc_engine)) = 32" "length (final (m_encryptCtx cbc_engine)) = 32"
    "length (iv (m_encryptCtx cbc_engine)) = 16" "length (oiv (m_encryptCtx cbc_engine)) = 16"
    by (simp_all add: aes_ctx_def)
qed

lemma ecb_engine_ctx:
  "cipher (m_encryptCtx ecb_engine) = EVP_aes_128_ecb test_platform"
  "length (buf (m_encryptCtx ecb_engine)) = 32" "length (final (m_encryptCtx ecb_engine)) = 32"
  "length (iv (m_encryptCtx ecb_engine)) = 16" "length (oiv (m_encryptCtx ecb_engine)) = 16"
  by (simp_all add: ecb_engine_def EVP_EncryptInit_ex_def EVP_CipherInit_ex_def
      EVP_CIPHER_CTX_init_def Let_def EVP_aes_128_ecb_def EVP_MAX_IV_LENGTH_def
      EVP_MAX_BLOCK_LENGTH_def)

theorem cts_keeps_length_witness:
  "cipher_blocks (cipher (m_encryptCtx cbc_engine))
   \<and> mode (cipher (m_encryptCtx cbc_engine)) = EVP_CIPH_CBC_MODE
   \<and> block_size (cipher (m_encryptCtx cbc_engine)) = 2 ^ 4
   \<and> block_size (cipher (m_encryptCtx cbc_engine)) \<le> length (replicate 20 (0x41 :: byte))
   \<and> length (replicate 20 (0x41 :: byte)) mod block_size (cipher (m_encryptCtx cbc_engine)) \<noteq> 0
   \<and> seq_ok (Some [0, 1, 0xAA, 0xBB, 0xCC, 0xDD])
   \<and> length (fst (snd (Encrypt cbc_engine (replicate 20 0x41) (Some [0, 1, 0xAA, 0xBB, 0xCC, 0xDD]))))
       = 20
   \<and> cipher_blocks (cipher (m_encryptCtx ecb_engine))
   \<and> mode (cipher (m_encryptCtx ecb_engine)) = EVP_CIPH_ECB_MODE
   \<and> block_size (cipher (m_encryptCtx ecb_engine)) = 2 ^ 4
   \<and> length (fst (snd (Encrypt ecb_engine (replicate 20 0x41) None))) = 20"
proof -
  have sq: "seq_ok (Some [0, 1, 0xAA, 0xBB, 0xCC, 0xDD])" "seq_ok None"
    by (simp_all add: seq_ok_def IV_SEQUENCE_LEN_def)
  have c: "cipher_blocks (cipher (m_encryptCtx cbc_engine))"
    "mode (cipher (m_encryptCtx cbc_engine)) = EVP_CIPH_ECB_MODE
       \<or> mode (cipher (m_encryptCtx cbc_engine)) = EVP_CIPH_CBC_MODE"
    "block_size (cipher (m_encryptCtx cbc_engine)) = 2 ^ 4"
    "block_size (cipher (m_encryptCtx cbc_engine)) \<le> EVP_MAX_BLOCK_LENGTH"
    "iv_len (cipher (m_encryptCtx cbc_engine)) \<le> EVP_MAX_IV_LENGTH"
    "length (buf (m_encryptCtx cbc_engine)) = EVP_MAX_BLOCK_LENGTH"
    "length (final (m_encryptCtx cbc_engine)) = EVP_MAX_BLOCK_LENGTH"
    "length (iv (m_encryptCtx cbc_engine)) = EVP_MAX_IV_LENGTH"
    "length (oiv (m_encryptCtx cbc_engine)) = EVP_MAX_IV_LENGTH"
    by (simp_all add: cbc_engine_ctx aes_cbc_blocks[OF block_ok_test_platform] aes_fields
        EVP_MAX_BLOCK_LENGTH_def EVP_MAX_IV_LENGTH_def)
  have cl: "block_size (cipher (m_encryptCtx cbc_engine)) \<le> length (replicate 20 (0x41 :: byte))"
    "length (replicate 20 (0x41 :: byte)) mod block_size (cipher (m_encryptCtx cbc_engine)) \<noteq> 0"
    by (simp_all add: cbc_engine_ctx aes_fields)
  have e: "cipher_blocks (cipher (m_encryptCtx ecb_engine))"
    "mode (cipher (m_encryptCtx ecb_engine)) = EVP_CIPH_ECB_MODE
       \<or> mode (cipher (m_encryptCtx ecb_engine)) = EVP_CIPH_CBC_MODE"
    "block_size (cipher (m_encryptCtx ecb_engine)) = 2 ^ 4"
    "block_size (cipher (m_encryptCtx ecb_engine)) \<le> EVP_MAX_BLOCK_LENGTH"
    "iv_len (cipher (m_encryptCtx ecb_engine)) \<le> EVP_MAX_IV_LENGTH"
    "length (buf (m_encryptCtx ecb_engine)) = EVP_MAX_BLOCK_LENGTH"
    "length (final (m_encryptCtx ecb_engine)) = EVP_MAX_BLOCK_LENGTH"
    "length (iv (m_encryptCtx ecb_engine)) = EVP_MAX_IV_LENGTH"
    "length (oiv (m_encryptCtx ecb_engine)) = EVP_MAX_IV_LENGTH"
    by (simp_all add: ecb_engine_ctx aes_ecb_blocks[OF block_ok_test_platform]
        EVP_MAX_BLOCK_LENGTH_def EVP_MAX_IV_LENGTH_def, simp_all add: EVP_aes_128_ecb_def)
  have el: "block_size (cipher (m_encryptCtx ecb_engine)) \<le> length (replicate 20 (0x41 :: byte))"
    "length (replicate 20 (0x41 :: byte)) mod block_size (cipher (m_encryptCtx ecb_engine)) \<noteq> 0"
    by (simp_all add: ecb_engine_ctx, simp_all add: EVP_aes_128_ecb_def)
  have m: "mode (cipher (m_encryptCtx cbc_engine)) = EVP_CIPH_CBC_MODE"
    "mode (cipher (m_encryptCtx ecb_engine)) = EVP_CIPH_ECB_MODE"
    by (simp_all add: cbc_engine_ctx ecb_engine_ctx aes_fields, simp add: EVP_aes_128_ecb_def)
  show ?thesis
    using c cl e m sq cts_keeps_length[OF c sq(1) cl] cts_keeps_length[OF e sq(2) el]
    by simp
qed

subsection \<open>Failures and what the caller sees of them\<close>

lemma Encrypt_steps_std_generic:
  assumes "length P < block_size (cipher (m_encryptCtx eng))
           \<or> length P mod block_size (cipher (m_encryptCtx eng)) = 0"
    and "c2 = EVP_CIPHER_CTX_set_padding
                (EVP_CipherInit_ex (m_encryptCtx eng) None None
                   (Some (SetIV (replicate EVP_MAX_IV_LENGTH 0) ivs (iv_len (cipher (m_encryptCtx eng))))) True)
                (length P < block_size (cipher (m_encryptCtx eng)))"
    and "r1 = EVP_EncryptUpdate c2 (length P + block_size (cipher (m_encryptCtx eng))) P (length P)"
    and "r2 = EVP_EncryptFinal_ex (res_ctx r1) 0"
  shows "Encrypt_steps eng P ivs = (length P < block_size (cipher (m_encryptCtx eng)), r1, r2)"
  using assms
  by (auto simp add: Encrypt_steps_def Let_def EVP_CIPHER_CTX_block_size_def
      EVP_CIPHER_CTX_iv_length_def EVP_EncryptInit_ex_def cipher_init cipher_set_padding)

lemma steps_keyed:
  assumes ok: "block_ok pf" and kd: "keyed pf klen k eng" and sq: "seq_ok ivs"
  shows "\<exists>r1 r2. Encrypt_steps eng P ivs = (length P < 16, r1, r2)
          \<and> ret r1 = Ret1 \<and> ret r2 = Ret1"
proof -
  let ?c0 = "m_encryptCtx eng"
  have ci: "cipher ?c0 = EVP_aes_cbc pf klen" using keyed_ctxs(3)[OF kd] .
  have bs: "block_size (cipher ?c0) = 16" and il: "iv_len (cipher ?c0) = 16"
    using ci by (simp_all add: aes_fields)
  have ivo: "SetIV (replicate EVP_MAX_IV_LENGTH 0) ivs (iv_len (cipher ?c0)) = IV_of ivs"
    using il by (simp add: IV_of_def)
  consider (short) "length P < 16" | (block) "16 \<le> length P" "length P mod 16 = 0"
    | (cts) "16 < length P" "length P mod 16 \<noteq> 0"
    by (cases "length P < 16"; cases "length P mod 16 = 0"; cases "length P = 16") auto
  then show ?thesis
  proof cases
    case short
    define c2 where "c2 = EVP_CIPHER_CTX_set_padding
      (EVP_CipherInit_ex ?c0 None None (Some (IV_of ivs)) True) (length P < 16)"
    note i = init_aes[OF keyed_ctxs(1)[OF kd] IV_of_length[OF sq] c2_def]
    have a2: "aes_ctx pf klen k True c2" and f: "buf_len c2 = 0" "block_mask c2 = 15"
      and np: "\<not> no_padding c2"
      using i short by simp_all
    from enc_short_update[OF a2 f short, of "length P + 16"]
    obtain c3 where c3: "EVP_EncryptUpdate c2 (length P + 16) P (length P) = result Ret1 c3 [] 0"
      "aes_ctx pf klen k True c3" "iv c3 = iv c2" "buf_len c3 = length P"
      "take (length P) (buf c3) = P" "no_padding c3 = no_padding c2"
      by blast
    have np3: "\<not> no_padding c3" using c3 np by simp
    from enc_final_pad_aes[OF ok c3(2) np3 c3(4) short c3(5), of 0]
    obtain c4 where c4: "EVP_EncryptFinal_ex c3 0 =
        result Ret1 c4 (AES_encrypt pf k (xor_bytes 16 (pkcs_pad P) (iv c3))) 16"
      by blast
    have c2': "c2 = EVP_CIPHER_CTX_set_padding
        (EVP_CipherInit_ex ?c0 None None
           (Some (SetIV (replicate EVP_MAX_IV_LENGTH 0) ivs (iv_len (cipher ?c0)))) True)
        (length P < block_size (cipher ?c0))"
      using c2_def ivo bs by simp
    have "Encrypt_steps eng P ivs = (length P < block_size (cipher ?c0),
        EVP_EncryptUpdate c2 (length P + block_size (cipher ?c0)) P (length P),
        EVP_EncryptFinal_ex (res_ctx (EVP_EncryptUpdate c2 (length P + block_size (cipher ?c0)) P (length P))) 0)"
      by (rule Encrypt_steps_std_generic[OF _ c2' refl refl]) (use short bs in simp)
    then show ?thesis using bs c3(1) c4 by (simp add: result_def)
  next
    case block
    let ?n = "length P div 16"
    have L: "length P = 16 * ?n" "1 \<le> ?n" using block by auto
    define c2 where "c2 = EVP_CIPHER_CTX_set_padding
      (EVP_CipherInit_ex ?c0 None None (Some (IV_of ivs)) True) (length P < 16)"
    note i = init_aes[OF keyed_ctxs(1)[OF kd] IV_of_length[OF sq] c2_def]
    have nl: "\<not> length P < 16" using block by simp
    have a2: "aes_ctx pf klen k True c2" and f: "buf_len c2 = 0" "block_mask c2 = 15"
      and np: "no_padding c2"
      using i nl by simp_all
    from update_direct_aes[OF ok a2 f L, of "length P + 16"]
    obtain c3 where c3: "EVP_EncryptUpdate c2 (length P + 16) P (length P)
          = result Ret1 c3 (fst (cbc pf True k ?n (iv c2) P)) (16 * ?n)"
      "aes_ctx pf klen k True c3" "buf_len c3 = 0" "no_padding c3 = no_padding c2"
      by blast
    have b3: "block_size (cipher c3) \<noteq> 1" using c3(2) by (simp add: aes_ctx_def aes_fields)
    have np3: "no_padding c3" using c3 np by simp
    have fin: "EVP_EncryptFinal_ex c3 0 = result Ret1 c3 [] 0"
      using encrypt_final_nopad[OF b3 np3 c3(3)] .
    have c2': "c2 = EVP_CIPHER_CTX_set_padding
        (EVP_CipherInit_ex ?c0 None None
           (Some (SetIV (replicate EVP_MAX_IV_LENGTH 0) ivs (iv_len (cipher ?c0)))) True)
        (length P < block_size (cipher ?c0))"
      using c2_def ivo bs by simp
    have "Encrypt_steps eng P ivs = (length P < block_size (cipher ?c0),
        EVP_EncryptUpdate c2 (length P + block_size (cipher ?c0)) P (length P),
        EVP_EncryptFinal_ex (res_ctx (EVP_EncryptUpdate c2 (length P + block_size (cipher ?c0)) P (length P))) 0)"
      by (rule Encrypt_steps_std_generic[OF _ c2' refl refl]) (use block bs in simp)
    then show ?thesis using bs c3(1) fin by (simp add: result_def)
  next
    case cts
    define c2 where "c2 = EVP_CIPHER_CTX_set_padding
      (EVP_CipherInit_ex ?c0 None None (Some (IV_of ivs)) True) False"
    define r1 where "r1 = EVP_EncryptUpdate_cts c2 P (length P)"
    note i = init_aes[OF keyed_ctxs(1)[OF kd] IV_of_length[OF sq] c2_def]
    have a2: "aes_ctx pf klen k True c2" and f: "buf_len c2 = 0" "\<not> final_used c2" "block_mask c2 = 15"
      using i by simp_all
    note e = enc_cts_aes[OF ok a2 f cts r1_def]
    have c2': "c2 = EVP_CIPHER_CTX_set_padding
        (EVP_CipherInit_ex ?c0 None None
           (Some (SetIV (replicate EVP_MAX_IV_LENGTH 0) ivs (iv_len (cipher ?c0)))) True) False"
      using c2_def ivo by simp
    have "Encrypt_steps eng P ivs = (False, r1, EVP_EncryptFinal_cts (res_ctx r1))"
      by (rule Encrypt_steps_cts_generic[OF _ _ c2' r1_def refl]) (use cts bs in simp_all)
    then show ?thesis using e cts by (auto simp add: result_def)
  qed
qed

lemma Encrypt_length_any:
  "Encrypt_steps eng P ivs = (flag, r1, r2) \<Longrightarrow>
   length (fst (snd (Encrypt eng P ivs))) = outl r1 + outl r2"
  by (simp add: Encrypt_def SetSize_def Let_def)

lemma SetKey_unsupported:
  "\<not> supported pf (m_algorithmOID eng) \<Longrightarrow> SetKey pf eng k = eng"
  by (auto simp add: SetKey_def supported_def)

lemma GenerateRandomKey_unsupported:
  assumes "\<not> supported pf (m_algorithmOID eng)"
  shows "GenerateRandomKey pf rnd eng = (eng, [])"
proof -
  have "GenerateRandomKey_for pf rnd eng (m_algorithmOID eng) = []"
    using assms by (auto simp add: GenerateRandomKey_for_def supported_def)
  then show ?thesis
    using SetKey_unsupported[OF assms] by (simp add: GenerateRandomKey_def)
qed

text \<open>
  Against claim C8 as it is stated, which counts an unsupported algorithm among the
  failures that reach the caller as an error. \<open>SetKey\<close> on an engine constructed for the
  algorithm \<open>1.2.3\<close> returns the engine exactly as it was, \<open>GenerateRandomKey\<close> on it
  returns an empty key, and \<open>CreateSession\<close> of a session for that algorithm returns true
  with an empty media key and the same engine. Lines 370 to 373 and 493 to 496 return
  before they touch a context, so this holds whatever the two contexts hold.
\<close>

theorem unsupported_algorithm_not_reported:
  "SetKey test_platform
       (H235CryptoEngine_new ''1.2.3'' (blank_ctx (copy_cipher 16 EVP_CIPH_OFB_MODE))
          (blank_ctx (copy_cipher 16 EVP_CIPH_OFB_MODE)))
       (replicate 16 1)
     = H235CryptoEngine_new ''1.2.3'' (blank_ctx (copy_cipher 16 EVP_CIPH_OFB_MODE))
         (blank_ctx (copy_cipher 16 EVP_CIPH_OFB_MODE))
   \<and> GenerateRandomKey test_platform of_nat
       (H235CryptoEngine_new ''1.2.3'' (blank_ctx (copy_cipher 16 EVP_CIPH_OFB_MODE))
          (blank_ctx (copy_cipher 16 EVP_CIPH_OFB_MODE)))
     = (H235CryptoEngine_new ''1.2.3'' (blank_ctx (copy_cipher 16 EVP_CIPH_OFB_MODE))
          (blank_ctx (copy_cipher 16 EVP_CIPH_OFB_MODE)), [])
   \<and> snd (CreateSession test_platform of_nat
        (H235Session_new [1, 2, 3] ''1.2.3''
           (blank_ctx (copy_cipher 16 EVP_CIPH_OFB_MODE)) (blank_ctx (copy_cipher 16 EVP_CIPH_OFB_MODE))
           (blank_ctx (copy_cipher 16 EVP_CIPH_OFB_MODE)) (blank_ctx (copy_cipher 16 EVP_CIPH_OFB_MODE)))
        True)
   \<and> m_crytoMasterKey (fst (CreateSession test_platform of_nat
        (H235Session_new [1, 2, 3] ''1.2.3''
           (blank_ctx (copy_cipher 16 EVP_CIPH_OFB_MODE)) (blank_ctx (copy_cipher 16 EVP_CIPH_OFB_MODE))
           (blank_ctx (copy_cipher 16 EVP_CIPH_OFB_MODE)) (blank_ctx (copy_cipher 16 EVP_CIPH_OFB_MODE)))
        True)) = []
   \<and> m_context (fst (CreateSession test_platform of_nat
        (H235Session_new [1, 2, 3] ''1.2.3''
           (blank_ctx (copy_cipher 16 EVP_CIPH_OFB_MODE)) (blank_ctx (copy_cipher 16 EVP_CIPH_OFB_MODE))
           (blank_ctx (copy_cipher 16 EVP_CIPH_OFB_MODE)) (blank_ctx (copy_cipher 16 EVP_CIPH_OFB_MODE)))
        True))
     = H235CryptoEngine_new ''1.2.3'' (blank_ctx (copy_cipher 16 EVP_CIPH_OFB_MODE))
         (blank_ctx (copy_cipher 16 EVP_CIPH_OFB_MODE))"
proof -
  let ?g = "blank_ctx (copy_cipher 16 EVP_CIPH_OFB_MODE)"
  let ?e = "H235CryptoEngine_new ''1.2.3'' ?g ?g"
  have u: "\<not> supported test_platform (m_algorithmOID ?e)"
    by (simp add: supported_def H235CryptoEngine_new_def OID_AES128_def OID_AES192_def
        OID_AES256_def)
  have k: "SetKey test_platform ?e (replicate 16 1) = ?e"
    and d: "SetKey test_platform ?e [1, 2, 3] = ?e"
    and g: "GenerateRandomKey test_platform of_nat ?e = (?e, [])"
    using SetKey_unsupported[OF u] GenerateRandomKey_unsupported[OF u] by simp_all
  have c: "CreateSession test_platform of_nat (H235Session_new [1, 2, 3] ''1.2.3'' ?g ?g ?g ?g) True
      = (\<lparr>m_dh = [1, 2, 3], m_context = ?e, m_dhcontext = ?e, m_isInitialised = True,
           m_isMaster = True, m_dhSessionkey = [1, 2, 3], m_crytoMasterKey = []\<rparr>, True)"
    by (simp add: CreateSession_def H235Session_new_def Let_def d g)
  show ?thesis using k g c by simp
qed

text \<open>
  Claim C8, as amended. Neither \<open>SetKey\<close> nor \<open>Encrypt\<close> has an error result. \<open>SetKey\<close>
  with an unsupported algorithm leaves the engine as it was and reports nothing. After
  \<open>SetKey\<close> with a supported algorithm, for every plaintext and every sequence value
  (absent or six bytes) both cipher steps of \<open>Encrypt\<close> return 1, so there is no failure
  to report and nothing is cut: the array has the bytes the two steps counted, 16 for a
  plaintext shorter than a block and the length of the plaintext otherwise.
\<close>

theorem Encrypt_keyed_never_fails:
  assumes "block_ok pf" and "seq_ok ivs" and "eng' = SetKey pf eng k"
  shows "if supported pf (m_algorithmOID eng)
         then (case Encrypt_steps eng' P ivs of
                 (flag, r1, r2) \<Rightarrow>
                   ret r1 = Ret1 \<and> ret r2 = Ret1
                   \<and> length (fst (snd (Encrypt eng' P ivs))) = outl r1 + outl r2
                   \<and> length (fst (snd (Encrypt eng' P ivs)))
                       = (if length P < 16 then 16 else length P))
         else eng' = eng"
proof (cases "supported pf (m_algorithmOID eng)")
  case True
  let ?n = "algorithm_key_len (m_algorithmOID eng)"
  have kd: "keyed pf ?n (take ?n k) eng'"
    using SetKey_keyed[OF True, of k] assms(3) by simp
  from steps_keyed[OF assms(1) kd assms(2), of P]
  obtain r1 r2 where s: "Encrypt_steps eng' P ivs = (length P < 16, r1, r2)"
    "ret r1 = Ret1" "ret r2 = Ret1" by blast
  from roundtrip_keyed[OF assms(1) kd kd assms(2), of P]
  have l: "length (fst (snd (Encrypt eng' P ivs))) = (if length P < 16 then 16 else length P)"
    by auto
  show ?thesis using True s l Encrypt_length_any[OF s(1)] by simp
next
  case False
  then show ?thesis using SetKey_unsupported[OF False, of k] assms(3) by simp
qed

theorem Encrypt_keyed_never_fails_witness:
  "block_ok test_platform \<and> seq_ok None
   \<and> supported test_platform (m_algorithmOID (H235CryptoEngine_new OID_AES256
         (blank_ctx (copy_cipher 16 EVP_CIPH_OFB_MODE)) (blank_ctx (copy_cipher 16 EVP_CIPH_OFB_MODE))))
   \<and> (case Encrypt_steps
             (SetKey test_platform
                (H235CryptoEngine_new OID_AES256 (blank_ctx (copy_cipher 16 EVP_CIPH_OFB_MODE))
                   (blank_ctx (copy_cipher 16 EVP_CIPH_OFB_MODE)))
                (replicate 32 9))
             (replicate 20 0x41) None of
         (flag, r1, r2) \<Rightarrow> ret r1 = Ret1 \<and> ret r2 = Ret1)
   \<and> length (fst (snd (Encrypt
             (SetKey test_platform
                (H235CryptoEngine_new OID_AES256 (blank_ctx (copy_cipher 16 EVP_CIPH_OFB_MODE))
                   (blank_ctx (copy_cipher 16 EVP_CIPH_OFB_MODE)))
                (replicate 32 9))
             (replicate 20 0x41) None))) = 20
   \<and> \<not> supported test_platform (m_algorithmOID (H235CryptoEngine_new ''1.2.3''
         (blank_ctx (copy_cipher 16 EVP_CIPH_OFB_MODE)) (blank_ctx (copy_cipher 16 EVP_CIPH_OFB_MODE))))
   \<and> SetKey test_platform
        (H235CryptoEngine_new ''1.2.3'' (blank_ctx (copy_cipher 16 EVP_CIPH_OFB_MODE))
           (blank_ctx (copy_cipher 16 EVP_CIPH_OFB_MODE)))
        (replicate 32 9)
      = H235CryptoEngine_new ''1.2.3'' (blank_ctx (copy_cipher 16 EVP_CIPH_OFB_MODE))
          (blank_ctx (copy_cipher 16 EVP_CIPH_OFB_MODE))"
proof -
  let ?g = "blank_ctx (copy_cipher 16 EVP_CIPH_OFB_MODE)"
  have h: "block_ok test_platform" "seq_ok None"
    by (rule block_ok_test_platform) (simp add: seq_ok_def)
  have s: "supported test_platform (m_algorithmOID (H235CryptoEngine_new OID_AES256 ?g ?g))"
    by (simp add: supported_def H235CryptoEngine_new_def test_platform_def)
  have u: "\<not> supported test_platform (m_algorithmOID (H235CryptoEngine_new ''1.2.3'' ?g ?g))"
    by (simp add: supported_def H235CryptoEngine_new_def OID_AES128_def OID_AES192_def
        OID_AES256_def)
  show ?thesis
    using h s u
      Encrypt_keyed_never_fails[OF h refl,
        where eng = "H235CryptoEngine_new OID_AES256 ?g ?g" and k = "replicate 32 9"
          and P = "replicate 20 0x41"]
      Encrypt_keyed_never_fails[OF h refl,
        where eng = "H235CryptoEngine_new ''1.2.3'' ?g ?g" and k = "replicate 32 9"
          and P = "[]"]
    by (auto split: prod.splits)
qed

subsection \<open>The session handshake and frames\<close>

lemma key_len_ge: "16 \<le> algorithm_key_len oid"
  by (simp add: algorithm_key_len_def)

lemma GenerateRandomKey_supported:
  assumes "supported pf (m_algorithmOID eng)"
  shows "GenerateRandomKey pf rnd eng =
     (SetKey pf eng (map rnd [0..<algorithm_key_len (m_algorithmOID eng)]),
      map rnd [0..<algorithm_key_len (m_algorithmOID eng)])"
  using assms oid_distinct
  by (auto simp add: GenerateRandomKey_def GenerateRandomKey_for_def supported_def
      algorithm_key_len_def Let_def)

lemma handshake:
  assumes ok: "block_ok pf" and sup: "supported pf oid"
    and m: "master = fst (CreateSession pf rnd (H235Session_new dh oid ma mb mc md) True)"
    and s: "slave = fst (CreateSession pf rnd' (H235Session_new dh oid sa sb sc sd) False)"
    and e: "master' = fst (EncodeMediaKey master)" and k: "mk = snd (EncodeMediaKey master)"
    and d: "slave' = DecodeMediaKey pf slave mk"
    and r: "r = map rnd [0..<algorithm_key_len oid]"
  shows "m_crytoMasterKey master' = r \<and> m_crytoMasterKey slave' = r
       \<and> keyed pf (algorithm_key_len oid) r (m_context master')
       \<and> keyed pf (algorithm_key_len oid) r (m_context slave')"
proof -
  let ?n = "algorithm_key_len oid"
  have lr: "length r = ?n" "take ?n r = r" using r by simp_all
  have o: "\<And>x y. m_algorithmOID (H235CryptoEngine_new oid x y) = oid"
    by (simp add: H235CryptoEngine_new_def)
  have supe: "\<And>x y. supported pf (m_algorithmOID (H235CryptoEngine_new oid x y))"
    using sup o by simp
  have g: "GenerateRandomKey pf rnd (H235CryptoEngine_new oid ma mb)
      = (SetKey pf (H235CryptoEngine_new oid ma mb) r, r)"
    using GenerateRandomKey_supported[OF supe, of rnd ma mb] o r by simp
  have mf: "m_context master = SetKey pf (H235CryptoEngine_new oid ma mb) r"
    "m_crytoMasterKey master = r"
    "m_dhcontext master = SetKey pf (H235CryptoEngine_new oid mc md) dh"
    using m g by (simp_all add: CreateSession_def H235Session_new_def Let_def)
  have sf: "m_context slave = H235CryptoEngine_new oid sa sb"
    "m_dhcontext slave = SetKey pf (H235CryptoEngine_new oid sc sd) dh"
    using s by (simp_all add: CreateSession_def H235Session_new_def Let_def)
  have kdm: "keyed pf ?n (take ?n dh) (m_dhcontext master)"
    using SetKey_keyed[OF supe, of mc md dh] o mf by simp
  have kds: "keyed pf ?n (take ?n dh) (m_dhcontext slave)"
    using SetKey_keyed[OF supe, of sc sd dh] o sf by simp
  have nl: "\<not> length r < 16" using lr key_len_ge[of oid] by simp
  have sq: "seq_ok None" by (simp add: seq_ok_def)
  from roundtrip_keyed[OF ok kdm kds sq, of r] nl
  obtain e' C e'' where rt: "Encrypt (m_dhcontext master) r None = (e', C, False)"
    "Decrypt (m_dhcontext slave) C None False = (e'', r)"
    by auto
  have mk: "mk = C" and m': "m_context master' = m_context master" "m_crytoMasterKey master' = r"
    using e k rt(1) mf by (simp_all add: EncodeMediaKey_def)
  have s': "m_crytoMasterKey slave' = r" "m_context slave' = SetKey pf (m_context slave) r"
    using d mk rt(2) by (simp_all add: DecodeMediaKey_def)
  have k1: "keyed pf ?n r (m_context master')"
    using SetKey_keyed[OF supe, of ma mb r] o mf m' lr by simp
  have k2: "keyed pf ?n r (m_context slave')"
    using SetKey_keyed[OF supe, of sa sb r] o sf s' lr by simp
  show ?thesis using m' s' k1 k2 by simp
qed

lemma frame_recovered_when_flag_matches:
  assumes ok: "block_ok pf" and km: "keyed pf klen k (m_context master)"
    and ks: "keyed pf klen k (m_context slave)"
    and fl: "padding frame = (length (payload frame) < 16)"
  shows "payload (fst (snd (ReadFrame slave (fst (snd (WriteFrame master frame))))))
           = payload frame"
proof -
  have sq: "seq_ok None" by (simp add: seq_ok_def)
  from roundtrip_keyed[OF ok km ks sq, of "payload frame"]
  obtain e' C e'' where rt:
    "Encrypt (m_context master) (payload frame) None = (e', C, length (payload frame) < 16)"
    "Decrypt (m_context slave) C None (length (payload frame) < 16) = (e'', payload frame)"
    by blast
  show ?thesis using rt fl by (simp add: WriteFrame_def ReadFrame_def Let_def)
qed

text \<open>
  Claim C2. The key transport holds: after the two \<open>CreateSession\<close> calls, passing the
  master's \<open>EncodeMediaKey\<close> output to the slave's \<open>DecodeMediaKey\<close> leaves both sessions
  with the same media key. The frame part fails for a payload shorter than a block in a
  frame whose padding flag is clear: \<open>WriteFrame\<close> pads the payload to one block and drops
  the flag \<open>Encrypt\<close> reports, so \<open>ReadFrame\<close> decrypts without removing the padding and
  returns 16 bytes, the payload followed by the padding bytes, not the payload.
\<close>

theorem short_frame_not_recovered:
  assumes "block_ok pf" and "supported pf oid"
    and "master = fst (CreateSession pf rnd (H235Session_new dh oid ma mb mc md) True)"
    and "slave = fst (CreateSession pf rnd' (H235Session_new dh oid sa sb sc sd) False)"
    and "master' = fst (EncodeMediaKey master)" and "mk = snd (EncodeMediaKey master)"
    and "slave' = DecodeMediaKey pf slave mk"
    and "length (payload frame) < 16" and "\<not> padding frame"
  shows "m_crytoMasterKey slave' = m_crytoMasterKey master'
       \<and> payload (fst (snd (ReadFrame slave' (fst (snd (WriteFrame master' frame))))))
           = pkcs_pad (payload frame)
       \<and> payload (fst (snd (ReadFrame slave' (fst (snd (WriteFrame master' frame))))))
           \<noteq> payload frame"
proof -
  let ?n = "algorithm_key_len oid"
  let ?r = "map rnd [0..<?n]"
  let ?P = "payload frame"
  let ?C = "AES_encrypt pf ?r (xor_bytes 16 (pkcs_pad ?P) (IV_of None))"
  note h = handshake[OF assms(1,2,3,4,5,6,7) refl]
  have km: "keyed pf ?n ?r (m_context master')" and ks: "keyed pf ?n ?r (m_context slave')"
    using h by simp_all
  have sq: "seq_ok None" by (simp add: seq_ok_def)
  note pf = pkcs_pad_facts[OF assms(8)]
  from E_short[OF assms(1) km sq assms(8)] obtain e' where
    en: "Encrypt (m_context master') ?P None = (e', ?C, True)" by blast
  have C1: "?C = fst (cbc pf True ?r 1 (IV_of None) (pkcs_pad ?P))"
    using pf(1) by (simp add: cbc_1_enc)
  have M: "length (pkcs_pad ?P) = 16 * 1" "(1::nat) \<le> 1" using pf(1) by simp_all
  from D_block[OF assms(1) ks sq M C1] obtain e'' where
    de: "Decrypt (m_context slave') ?C None False = (e'', pkcs_pad ?P)" by blast
  have res: "payload (fst (snd (ReadFrame slave' (fst (snd (WriteFrame master' frame))))))
      = pkcs_pad ?P"
    using en de assms(9) by (simp add: WriteFrame_def ReadFrame_def Let_def)
  have ne: "pkcs_pad ?P \<noteq> ?P" using pf(1) assms(8) by auto
  show ?thesis using h res ne by simp
qed

theorem short_frame_not_recovered_witness:
  "block_ok test_platform \<and> supported test_platform OID_AES128
   \<and> length (payload \<lparr>payload = [0x41], padding = False\<rparr>) < 16
   \<and> \<not> padding \<lparr>payload = [0x41], padding = False\<rparr>
   \<and> payload (fst (snd (ReadFrame
        (DecodeMediaKey test_platform test_slave (snd (EncodeMediaKey test_master)))
        (fst (snd (WriteFrame (fst (EncodeMediaKey test_master))
                     \<lparr>payload = [0x41], padding = False\<rparr>))))))
     = 0x41 # replicate 15 15"
proof -
  have h: "block_ok test_platform" "supported test_platform OID_AES128"
    by (rule block_ok_test_platform) (simp add: supported_def)
  have f: "length (payload \<lparr>payload = [0x41 :: byte], padding = False\<rparr>) < 16"
    "\<not> padding \<lparr>payload = [0x41 :: byte], padding = False\<rparr>"
    by simp_all
  have p: "pkcs_pad (payload \<lparr>payload = [0x41 :: byte], padding = False\<rparr>) = 0x41 # replicate 15 15"
    by (simp add: pkcs_pad_def)
  show ?thesis
    using h f p short_frame_not_recovered[OF h test_master_def test_slave_def refl refl refl f]
    by simp
qed

end
